theory Spec2Isabelle
  imports Main "HOL-Library.Word"
begin

section \<open>Status codes, error kinds and the file handle\<close>

type_synonym byte = "8 word"

text \<open>
  Modelled from the spec: the declaration of \<open>FileStatus\<close> (\<open>mbcommon/file.h\<close>) is not
  among the sources. The spec orders the levels, from most severe to least, as
  \<open>FATAL\<close>, \<open>FAILED\<close>, \<open>WARN\<close>, \<open>OK\<close>, \<open>RETRY\<close>; \<open>UNSUPPORTED\<close> is the status of a handle
  that cannot read, write or seek, and the doc comments of \<open>file_util.cpp\<close> list it among
  the results that \<open>ret < FileStatus::OK\<close> returns. The source compares a status with
  \<open>OK\<close> only, so only the side of \<open>OK\<close> on which a level lies matters.
\<close>

datatype FileStatus = OK | RETRY | UNSUPPORTED | WARN | FAILED | FATAL

fun status_level :: "FileStatus \<Rightarrow> int" where
  "status_level FATAL = -4"
| "status_level FAILED = -3"
| "status_level WARN = -2"
| "status_level UNSUPPORTED = -1"
| "status_level OK = 0"
| "status_level RETRY = 1"

text \<open>The comparison \<open>ret < FileStatus::OK\<close> of the source.\<close>

definition lt_OK :: "FileStatus \<Rightarrow> bool" where
  "lt_OK ret = (status_level ret < status_level OK)"

text \<open>
  The error kinds handed to \<open>set_error\<close>; \<open>ERRNO\<close> stands for the \<open>-errno\<close> of a failed
  allocation. The message text is not modelled.
\<close>

datatype FileError = INVALID_ARGUMENT | INTERNAL_ERROR | ERRNO

text \<open>
  The \<open>File\<close> class is abstract for this layer: a handle is a state \<open>'s\<close> together with its
  four operations (\<open>File::read\<close>, \<open>File::write\<close>, \<open>File::seek\<close>, \<open>File::set_error\<close>).
  \<open>File_read\<close> returns the status, the bytes it stored in the caller's buffer
  (their number is the \<open>n\<close> of the source) and the new state; \<open>File_write\<close> returns the status and
  the number of bytes it took; \<open>File_seek\<close> is always called with \<open>SEEK_SET\<close> and no result
  pointer.
\<close>

record 's File =
  File_read :: "'s \<Rightarrow> nat \<Rightarrow> FileStatus \<times> byte list \<times> 's"
  File_write :: "'s \<Rightarrow> byte list \<Rightarrow> FileStatus \<times> nat \<times> 's"
  File_seek :: "'s \<Rightarrow> nat \<Rightarrow> FileStatus \<times> 's"
  File_set_error :: "'s \<Rightarrow> FileError \<Rightarrow> 's"

definition UINT64_MAX :: nat where
  "UINT64_MAX = 2 ^ 64 - 1"

definition SIZE_MAX :: nat where
  "SIZE_MAX = 2 ^ 64 - 1"

definition DEFAULT_BUFFER_SIZE :: nat where
  "DEFAULT_BUFFER_SIZE = 8 * 1024 * 1024"

section \<open>Retrying transfer\<close>

text \<open>
  \<open>file_read_fully\<close>: \<open>buf\<close> holds the bytes read so far, so \<open>*bytes_read\<close> is \<open>length buf\<close>.
  The loop has no bound on the number of \<open>RETRY\<close> results, so it is a partial function:
  \<open>None\<close> is a run that never returns.
\<close>

partial_function (option) read_fully_loop ::
  "'s File \<Rightarrow> 's \<Rightarrow> nat \<Rightarrow> byte list \<Rightarrow> (FileStatus \<times> byte list \<times> 's) option" where
  "read_fully_loop F s sz buf =
     (if length buf < sz then
        (case File_read F s (sz - length buf) of (ret, data, s') \<Rightarrow>
           if ret = RETRY then read_fully_loop F s' sz buf
           else if lt_OK ret then Some (ret, buf, s')
           else if length data = 0 then Some (OK, buf, s')
           else read_fully_loop F s' sz (buf @ data))
      else Some (OK, buf, s))"

definition file_read_fully ::
  "'s File \<Rightarrow> 's \<Rightarrow> nat \<Rightarrow> (FileStatus \<times> byte list \<times> 's) option" where
  "file_read_fully F s sz = read_fully_loop F s sz []"

text \<open>\<open>file_write_fully\<close>: \<open>buf\<close> is the whole buffer, \<open>size\<close> its length.\<close>

partial_function (option) write_fully_loop ::
  "'s File \<Rightarrow> 's \<Rightarrow> byte list \<Rightarrow> nat \<Rightarrow> (FileStatus \<times> nat \<times> 's) option" where
  "write_fully_loop F s buf bytes_written =
     (if bytes_written < length buf then
        (case File_write F s (drop bytes_written buf) of (ret, n, s') \<Rightarrow>
           if ret = RETRY then write_fully_loop F s' buf bytes_written
           else if lt_OK ret then Some (ret, bytes_written, s')
           else if n = 0 then Some (OK, bytes_written, s')
           else write_fully_loop F s' buf (bytes_written + n))
      else Some (OK, bytes_written, s))"

definition file_write_fully ::
  "'s File \<Rightarrow> 's \<Rightarrow> byte list \<Rightarrow> (FileStatus \<times> nat \<times> 's) option" where
  "file_write_fully F s buf = write_fully_loop F s buf 0"

section \<open>Discard\<close>

text \<open>
  \<open>file_read_discard\<close>: every read asks for \<open>min size sizeof(buf)\<close> bytes, as the source
  does; the counter is a \<open>uint64_t\<close>.
\<close>

partial_function (option) read_discard_loop ::
  "'s File \<Rightarrow> 's \<Rightarrow> nat \<Rightarrow> nat \<Rightarrow> (FileStatus \<times> nat \<times> 's) option" where
  "read_discard_loop F s sz bytes_discarded =
     (if bytes_discarded < sz then
        (case File_read F s (min sz 10240) of (ret, data, s') \<Rightarrow>
           if ret = RETRY then read_discard_loop F s' sz bytes_discarded
           else if lt_OK ret then Some (ret, bytes_discarded, s')
           else if length data = 0 then Some (OK, bytes_discarded, s')
           else read_discard_loop F s' sz ((bytes_discarded + length data) mod 2 ^ 64))
      else Some (OK, bytes_discarded, s))"

definition file_read_discard ::
  "'s File \<Rightarrow> 's \<Rightarrow> nat \<Rightarrow> (FileStatus \<times> nat \<times> 's) option" where
  "file_read_discard F s sz = read_discard_loop F s sz 0"

section \<open>Pattern search\<close>

text \<open>
  Modelled from the spec: \<open>mb_memmem\<close> (\<open>mbcommon/libc/string.h\<close>) is not among the
  sources. It is the exact-match search of the spec: the index of the first occurrence of
  the needle in the haystack, or \<open>None\<close> for the null pointer.
\<close>

fun mb_memmem :: "byte list \<Rightarrow> byte list \<Rightarrow> nat option" where
  "mb_memmem [] needle = (if needle = [] then Some 0 else None)"
| "mb_memmem (h # hs) needle =
     (if take (length needle) (h # hs) = needle then Some 0
      else map_option Suc (mb_memmem hs needle))"

text \<open>
  The callback \<open>result_cb(file, userdata, offset)\<close> may change the handle and its own data:
  it maps both to their new values.
\<close>

type_synonym ('s, 'u) FileSearchResultCallback =
  "'s \<Rightarrow> 'u \<Rightarrow> nat \<Rightarrow> FileStatus \<times> 's \<times> 'u"

text \<open>
  How the inner \<open>while\<close> loop over the matches of one buffer ends: by \<open>goto done\<close> with a
  status, or by falling out of the loop with \<open>match_remain\<close> and \<open>max_matches\<close>.
\<close>

datatype ('s, 'u) search_exit = Done FileStatus 's 'u | Refill nat int 's 'u

text \<open>
  The inner loop. \<open>buf\<close> is the valid part of the buffer (\<open>n\<close> is its length), \<open>match\<close> the
  index \<open>match - buf\<close>, \<open>pattern_size\<close> the length of \<open>pattern\<close>.
\<close>

partial_function (option) search_matches ::
  "byte list \<Rightarrow> nat \<Rightarrow> int \<Rightarrow> byte list \<Rightarrow> ('s, 'u) FileSearchResultCallback \<Rightarrow>
   nat \<Rightarrow> nat \<Rightarrow> int \<Rightarrow> 's \<Rightarrow> 'u \<Rightarrow> ('s, 'u) search_exit option" where
  "search_matches buf offset end pattern result_cb match match_remain max_matches s u =
     (case mb_memmem (take match_remain (drop match buf)) pattern of
        None \<Rightarrow> Some (Refill match_remain max_matches s u)
      | Some i \<Rightarrow>
          if end \<ge> 0 \<and> int (offset + (match + i) + length pattern) > end
          then Some (Done OK s u)
          else
            (case result_cb s u (offset + (match + i)) of (ret, s', u') \<Rightarrow>
               if ret = WARN then Some (Done OK s' u')
               else if lt_OK ret then Some (Done ret s' u')
               else if max_matches > 0 \<and> max_matches - 1 = 0 then Some (Done ret s' u')
               else if match_remain \<ge> length pattern
               then search_matches buf offset end pattern result_cb
                      (match + i + length pattern)
                      (length buf - (match + i + length pattern))
                      (if max_matches > 0 then max_matches - 1 else max_matches) s' u'
               else Some (Refill match_remain
                      (if max_matches > 0 then max_matches - 1 else max_matches) s' u')))"

text \<open>
  The outer loop. \<open>kept\<close> holds the \<open>to_move\<close> bytes moved to the start of the buffer, so
  \<open>ptr - buf\<close> is \<open>length kept\<close> and \<open>ptr_remain\<close> is \<open>buf_size - length kept\<close>.
\<close>

partial_function (option) search_loop ::
  "'s File \<Rightarrow> int \<Rightarrow> byte list \<Rightarrow> ('s, 'u) FileSearchResultCallback \<Rightarrow> nat \<Rightarrow>
   byte list \<Rightarrow> nat \<Rightarrow> int \<Rightarrow> 's \<Rightarrow> 'u \<Rightarrow> (FileStatus \<times> 's \<times> 'u) option" where
  "search_loop F end pattern result_cb buf_size kept offset max_matches s u =
     (case file_read_fully F s (buf_size - length kept) of
        None \<Rightarrow> None
      | Some (ret, data, s1) \<Rightarrow>
          if lt_OK ret then Some (ret, s1, u)
          else if length (kept @ data) < length pattern then Some (ret, s1, u)
          else if end \<ge> 0 \<and> offset \<ge> nat end then Some (ret, s1, u)
          else if length (kept @ data) > UINT64_MAX - offset
          then Some (FAILED, File_set_error F s1 INTERNAL_ERROR, u)
          else
            (case search_matches (kept @ data) offset end pattern result_cb
                    0 (length (kept @ data)) max_matches s1 u of
               None \<Rightarrow> None
             | Some (Done r s2 u2) \<Rightarrow> Some (r, s2, u2)
             | Some (Refill match_remain mm s2 u2) \<Rightarrow>
                 search_loop F end pattern result_cb buf_size
                   (drop (length (kept @ data) - min match_remain (length pattern - 1))
                      (kept @ data))
                   (offset + (length (kept @ data) - min match_remain (length pattern - 1)))
                   mm s2 u2))"

text \<open>
  The part of \<open>file_search\<close> behind the allocation of the buffer: positioning at \<open>offset\<close>
  by \<open>seek\<close>, or by discarding when the handle cannot seek, then the scan.
\<close>

definition file_search_scan ::
  "'s File \<Rightarrow> int \<Rightarrow> byte list \<Rightarrow> ('s, 'u) FileSearchResultCallback \<Rightarrow> nat \<Rightarrow>
   nat \<Rightarrow> int \<Rightarrow> 's \<Rightarrow> 'u \<Rightarrow> (FileStatus \<times> 's \<times> 'u) option" where
  "file_search_scan F end pattern result_cb buf_size offset max_matches s u =
     (case File_seek F s offset of (ret, s1) \<Rightarrow>
        if ret = UNSUPPORTED then
          (case file_read_discard F s1 offset of
             None \<Rightarrow> None
           | Some (ret2, discarded, s2) \<Rightarrow>
               if lt_OK ret2 then Some (ret2, s2, u)
               else if discarded \<noteq> offset
               then Some (FATAL, File_set_error F s2 INVALID_ARGUMENT, u)
               else search_loop F end pattern result_cb buf_size [] offset max_matches s2 u)
        else if lt_OK ret then Some (ret, s1, u)
        else search_loop F end pattern result_cb buf_size [] offset max_matches s1 u)"

text \<open>
  \<open>file_search\<close>. \<open>malloc\<close> tells whether an allocation of the given size succeeds; the
  pattern is the byte list of length \<open>pattern_size\<close>.
\<close>

definition file_search ::
  "'s File \<Rightarrow> (nat \<Rightarrow> bool) \<Rightarrow> 's \<Rightarrow> int \<Rightarrow> int \<Rightarrow> nat \<Rightarrow> byte list \<Rightarrow> int \<Rightarrow>
   ('s, 'u) FileSearchResultCallback \<Rightarrow> 'u \<Rightarrow> (FileStatus \<times> 's \<times> 'u) option" where
  "file_search F malloc s start end bsize pattern max_matches result_cb u =
     (if start \<ge> 0 \<and> end \<ge> 0 \<and> end < start
      then Some (FAILED, File_set_error F s INVALID_ARGUMENT, u)
      else if max_matches = 0 \<or> length pattern = 0 then Some (OK, s, u)
      else
        (let buf_size =
               (if bsize \<noteq> 0 then bsize
                else if length pattern > SIZE_MAX div 2 then SIZE_MAX
                else max DEFAULT_BUFFER_SIZE (length pattern * 2))
         in
           if buf_size < length pattern
           then Some (FAILED, File_set_error F s INVALID_ARGUMENT, u)
           else if \<not> malloc buf_size then Some (FAILED, File_set_error F s ERRNO, u)
           else file_search_scan F end pattern result_cb buf_size
                  (if start \<ge> 0 then nat start else 0) max_matches s u))"

section \<open>Region move\<close>

text \<open>
  The two copy loops of \<open>file_move\<close>, with \<open>sizeof(buf)\<close> as the parameter \<open>bufsz\<close>.
  \<open>data\<close> is what \<open>file_read_fully\<close> left in \<open>buf\<close>, so \<open>n_read\<close> is \<open>length data\<close>.
\<close>

partial_function (option) move_forwards ::
  "nat \<Rightarrow> 's File \<Rightarrow> nat \<Rightarrow> nat \<Rightarrow> nat \<Rightarrow> nat \<Rightarrow> 's \<Rightarrow> (FileStatus \<times> nat \<times> 's) option" where
  "move_forwards bufsz F src dest sz size_moved s =
     (if size_moved < sz then
        (case File_seek F s (src + size_moved) of (ret, s1) \<Rightarrow>
           if ret \<noteq> OK then Some (ret, size_moved, s1)
           else
             (case file_read_fully F s1 (min bufsz (sz - size_moved)) of
                None \<Rightarrow> None
              | Some (ret, data, s2) \<Rightarrow>
                  if ret \<noteq> OK then Some (ret, size_moved, s2)
                  else if length data = 0 then Some (OK, size_moved, s2)
                  else
                    (case File_seek F s2 (dest + size_moved) of (ret, s3) \<Rightarrow>
                       if ret \<noteq> OK then Some (ret, size_moved, s3)
                       else
                         (case file_write_fully F s3 data of
                            None \<Rightarrow> None
                          | Some (ret, n_written, s4) \<Rightarrow>
                              if ret \<noteq> OK then Some (ret, size_moved, s4)
                              else if n_written < length data
                              then Some (OK, size_moved + n_written, s4)
                              else move_forwards bufsz F src dest sz
                                     (size_moved + n_written) s4))))
      else Some (OK, size_moved, s))"

partial_function (option) move_backwards ::
  "nat \<Rightarrow> 's File \<Rightarrow> nat \<Rightarrow> nat \<Rightarrow> nat \<Rightarrow> nat \<Rightarrow> 's \<Rightarrow> (FileStatus \<times> nat \<times> 's) option" where
  "move_backwards bufsz F src dest sz size_moved s =
     (if size_moved < sz then
        (case File_seek F s (src + sz - size_moved - min bufsz (sz - size_moved)) of
           (ret, s1) \<Rightarrow>
           if ret \<noteq> OK then Some (ret, size_moved, s1)
           else
             (case file_read_fully F s1 (min bufsz (sz - size_moved)) of
                None \<Rightarrow> None
              | Some (ret, data, s2) \<Rightarrow>
                  if ret \<noteq> OK then Some (ret, size_moved, s2)
                  else if length data = 0 then Some (OK, size_moved, s2)
                  else
                    (case File_seek F s2 (dest + sz - size_moved - length data) of
                       (ret, s3) \<Rightarrow>
                       if ret \<noteq> OK then Some (ret, size_moved, s3)
                       else
                         (case file_write_fully F s3 data of
                            None \<Rightarrow> None
                          | Some (ret, n_written, s4) \<Rightarrow>
                              if ret \<noteq> OK then Some (ret, size_moved, s4)
                              else move_backwards bufsz F src dest
                                     (if n_written < length data
                                      then sz - (length data - n_written) else sz)
                                     (size_moved + n_written) s4))))
      else Some (OK, size_moved, s))"

text \<open>
  \<open>file_move\<close>. \<open>size_moved\<close> is an output parameter: \<open>size_moved0\<close> is what the caller's
  variable holds before the call, and the result carries what it holds after it.
\<close>

definition file_move_chunked ::
  "nat \<Rightarrow> 's File \<Rightarrow> 's \<Rightarrow> nat \<Rightarrow> nat \<Rightarrow> nat \<Rightarrow> nat \<Rightarrow> (FileStatus \<times> nat \<times> 's) option" where
  "file_move_chunked bufsz F s src dest sz size_moved0 =
     (if src = dest \<or> sz = 0 then Some (OK, sz, s)
      else if src > UINT64_MAX - sz \<or> dest > UINT64_MAX - sz
      then Some (FAILED, size_moved0, File_set_error F s INVALID_ARGUMENT)
      else if dest < src then move_forwards bufsz F src dest sz 0 s
      else move_backwards bufsz F src dest sz 0 s)"

definition file_move ::
  "'s File \<Rightarrow> 's \<Rightarrow> nat \<Rightarrow> nat \<Rightarrow> nat \<Rightarrow> nat \<Rightarrow> (FileStatus \<times> nat \<times> 's) option" where
  "file_move = file_move_chunked 10240"

section \<open>A scripted in-memory handle\<close>

text \<open>
  Modelled from the spec: no implementation of the \<open>File\<close> class is among the sources.
  This one follows the handle contract of the spec: a single call may transfer fewer bytes
  than requested, a \<open>RETRY\<close> transfers nothing and asks for the same call again, a read of
  zero bytes with \<open>OK\<close> is the end of the file, a write of zero bytes the end of the
  capacity. The handle holds the bytes \<open>content\<close>, the position \<open>pos\<close>, the largest size
  \<open>cap\<close> the file may grow to, and a script \<open>sched\<close> that decides what the next single-shot
  reads and writes do: \<open>Again\<close> answers \<open>RETRY\<close>, \<open>AtMost k\<close> transfers at most \<open>k + 1\<close>
  bytes, \<open>Fail st\<close> answers the status \<open>st\<close>; once the script is used up every call
  transfers all it can. A handle that is not \<open>seekable\<close> answers \<open>UNSUPPORTED\<close> to \<open>seek\<close>.
\<close>

datatype sched_item = Again | AtMost nat | Fail FileStatus

record mem_file =
  content :: "byte list"
  pos :: nat
  cap :: nat
  seekable :: bool
  sched :: "sched_item list"
  last_error :: "FileError option"

text \<open>Storing \<open>data\<close> at offset \<open>p\<close>: a gap behind the old end is filled with zero bytes.\<close>

definition mem_put :: "byte list \<Rightarrow> nat \<Rightarrow> byte list \<Rightarrow> byte list" where
  "mem_put c p data =
     (if data = [] then c
      else take p c @ replicate (p - length c) 0 @ data @ drop (p + length data) c)"

definition mem_read :: "mem_file \<Rightarrow> nat \<Rightarrow> FileStatus \<times> byte list \<times> mem_file" where
  "mem_read s n =
     (case sched s of
        [] \<Rightarrow>
          (OK, take n (drop (pos s) (content s)),
           s\<lparr>pos := pos s + length (take n (drop (pos s) (content s)))\<rparr>)
      | Again # rest \<Rightarrow> (RETRY, [], s\<lparr>sched := rest\<rparr>)
      | Fail st # rest \<Rightarrow> (st, [], s\<lparr>sched := rest\<rparr>)
      | AtMost k # rest \<Rightarrow>
          (OK, take (min n (Suc k)) (drop (pos s) (content s)),
           s\<lparr>pos := pos s + length (take (min n (Suc k)) (drop (pos s) (content s))),
             sched := rest\<rparr>))"

definition mem_write :: "mem_file \<Rightarrow> byte list \<Rightarrow> FileStatus \<times> nat \<times> mem_file" where
  "mem_write s data =
     (case sched s of
        [] \<Rightarrow>
          (OK, length (take (cap s - pos s) data),
           s\<lparr>content := mem_put (content s) (pos s) (take (cap s - pos s) data),
             pos := pos s + length (take (cap s - pos s) data)\<rparr>)
      | Again # rest \<Rightarrow> (RETRY, 0, s\<lparr>sched := rest\<rparr>)
      | Fail st # rest \<Rightarrow> (st, 0, s\<lparr>sched := rest\<rparr>)
      | AtMost k # rest \<Rightarrow>
          (OK, length (take (min (Suc k) (cap s - pos s)) data),
           s\<lparr>content := mem_put (content s) (pos s) (take (min (Suc k) (cap s - pos s)) data),
             pos := pos s + length (take (min (Suc k) (cap s - pos s)) data),
             sched := rest\<rparr>))"

definition mem_seek :: "mem_file \<Rightarrow> nat \<Rightarrow> FileStatus \<times> mem_file" where
  "mem_seek s off = (if seekable s then (OK, s\<lparr>pos := off\<rparr>) else (UNSUPPORTED, s))"

definition mem_set_error :: "mem_file \<Rightarrow> FileError \<Rightarrow> mem_file" where
  "mem_set_error s e = s\<lparr>last_error := Some e\<rparr>"

definition MemFile :: "mem_file File" where
  "MemFile = \<lparr>File_read = mem_read, File_write = mem_write, File_seek = mem_seek,
              File_set_error = mem_set_error\<rparr>"

text \<open>A script item is well formed when a \<open>Fail\<close> carries a status below \<open>OK\<close>.\<close>

fun sched_item_ok :: "sched_item \<Rightarrow> bool" where
  "sched_item_ok (Fail st) = lt_OK st"
| "sched_item_ok _ = True"

text \<open>A script without failures: retries and short transfers only.\<close>

fun no_fail :: "sched_item \<Rightarrow> bool" where
  "no_fail (Fail st) = False"
| "no_fail _ = True"

section \<open>Postconditions and sample data\<close>

text \<open>
  What \<open>file_read_fully\<close> returns on the scripted handle: the bytes \<open>d\<close> appended to \<open>buf\<close>
  are the file's bytes at the old position, the position has advanced by their number, a
  result \<open>OK\<close> means that everything asked for and available was read, and any other status
  is a failure that the script holds.
\<close>

definition read_post :: "mem_file \<Rightarrow> nat \<Rightarrow> byte list \<Rightarrow> FileStatus \<times> byte list \<times> mem_file \<Rightarrow> bool" where
  "read_post s sz buf r = (\<exists>st d sch'.
      r = (st, buf @ d, s\<lparr>pos := pos s + length d, sched := sch'\<rparr>)
      \<and> take (length d) (drop (pos s) (content s)) = d
      \<and> length d \<le> sz - length buf
      \<and> (st = OK \<longrightarrow> length d = min (sz - length buf) (length (content s) - pos s))
      \<and> (st \<noteq> OK \<longrightarrow> lt_OK st \<and> Fail st \<in> set (sched s))
      \<and> ((\<forall>x\<in>set (sched s). no_fail x) \<longrightarrow> st = OK)
      \<and> set sch' \<subseteq> set (sched s))"

text \<open>The same for \<open>file_write_fully\<close>, which starts with \<open>w\<close> bytes written.\<close>

definition write_post :: "mem_file \<Rightarrow> byte list \<Rightarrow> nat \<Rightarrow> FileStatus \<times> nat \<times> mem_file \<Rightarrow> bool" where
  "write_post s buf w r = (\<exists>st n sch'.
      r = (st, w + n,
           s\<lparr>content := mem_put (content s) (pos s) (take n (drop w buf)),
             pos := pos s + n, sched := sch'\<rparr>)
      \<and> n \<le> length buf - w
      \<and> (st = OK \<longrightarrow> n = min (length buf - w) (cap s - pos s))
      \<and> (st \<noteq> OK \<longrightarrow> lt_OK st \<and> Fail st \<in> set (sched s))
      \<and> ((\<forall>x\<in>set (sched s). no_fail x) \<longrightarrow> st = OK)
      \<and> set sch' \<subseteq> set (sched s))"

text \<open>
  The reference for the retrying transfer on a scripted handle, after the spec's words: what
  a transfer of \<open>want\<close> bytes returns when \<open>avail\<close> bytes can still be moved and the script
  is \<open>sch\<close>. The result is the status, the number of bytes moved and the script that is
  left. A transfer of nothing makes no call. A \<open>RETRY\<close> is absorbed: the same call is made
  again. A failure is returned at once, with the count of the bytes moved before it. A
  call that moves nothing is the end of the file and ends the transfer with \<open>OK\<close>. Any other
  call moves its bytes and the transfer goes on with what is left to move.
\<close>

fun script_transfer :: "sched_item list \<Rightarrow> nat \<Rightarrow> nat \<Rightarrow> FileStatus \<times> nat \<times> sched_item list" where
  "script_transfer [] avail want = (OK, min want avail, [])"
| "script_transfer (x # rest) avail want =
     (if want = 0 then (OK, 0, x # rest)
      else
        (case x of
           Again \<Rightarrow> script_transfer rest avail want
         | Fail st \<Rightarrow> (st, 0, rest)
         | AtMost k \<Rightarrow>
             if min (min want (Suc k)) avail = 0 then (OK, 0, rest)
             else
               (case script_transfer rest (avail - min (min want (Suc k)) avail)
                       (want - min (min want (Suc k)) avail) of
                  (st, m, rest') \<Rightarrow> (st, min (min want (Suc k)) avail + m, rest'))))"

text \<open>
  The handle contract for transfer counts: a single-shot read or write that neither fails
  nor asks for a retry reports no more bytes than it was asked to move.
\<close>

definition File_ok :: "'s File \<Rightarrow> bool" where
  "File_ok F =
     ((\<forall>s n ret data s'. File_read F s n = (ret, data, s') \<and> ret \<noteq> RETRY \<and> \<not> lt_OK ret
          \<longrightarrow> length data \<le> n)
    \<and> (\<forall>s buf ret n s'. File_write F s buf = (ret, n, s') \<and> ret \<noteq> RETRY \<and> \<not> lt_OK ret
          \<longrightarrow> n \<le> length buf))"

text \<open>
  The reference for \<open>file_move\<close>, after the spec's words: the whole-buffer, non-chunked move
  with \<open>memmove\<close> semantics. Every byte of the destination range receives the byte that the
  source range held before the move, every other byte stays, and a file that ends before
  the destination range is extended, a gap reading as zero bytes.
\<close>

definition whole_move :: "byte list \<Rightarrow> nat \<Rightarrow> nat \<Rightarrow> nat \<Rightarrow> byte list" where
  "whole_move c src dest sz =
     (if sz = 0 then c
      else map (\<lambda>i. if dest \<le> i \<and> i < dest + sz then c ! (src + (i - dest))
                     else if i < length c then c ! i else 0)
             [0 ..< max (length c) (dest + sz)])"

text \<open>
  Observing the callback: \<open>traced cb\<close> behaves as \<open>cb\<close> and appends every offset it is called
  with, together with the status \<open>cb\<close> returns for it, to a list kept beside the user data.
\<close>

definition traced ::
  "('s, 'u) FileSearchResultCallback \<Rightarrow>
   ('s, 'u \<times> (nat \<times> FileStatus) list) FileSearchResultCallback" where
  "traced cb s ut off =
     (case cb s (fst ut) off of (ret, s', u') \<Rightarrow> (ret, s', (u', snd ut @ [(off, ret)])))"

text \<open>Consecutive offsets lie at least \<open>p\<close> apart: \<open>match[i+1] \<ge> match[i] + p\<close>.\<close>

fun gapped :: "nat \<Rightarrow> nat list \<Rightarrow> bool" where
  "gapped p [] = True"
| "gapped p [x] = True"
| "gapped p (x # y # ys) = (x + p \<le> y \<and> gapped p (y # ys))"

text \<open>
  The invariant of the scan, for the trace \<open>tr\<close> of the calls made so far and the absolute
  offset \<open>c\<close> the scan has reached: the offsets are gapped, every reported match ends at or
  before \<open>c\<close> and, with an explicit end, at or before the end, and every call so far let the
  search continue.
\<close>

definition trace_inv :: "nat \<Rightarrow> int \<Rightarrow> nat \<Rightarrow> (nat \<times> FileStatus) list \<Rightarrow> bool" where
  "trace_inv p e c tr =
     (gapped p (map fst tr)
      \<and> list_all (\<lambda>x. fst x + p \<le> c \<and> (0 \<le> e \<longrightarrow> int (fst x + p) \<le> e)
                      \<and> snd x \<noteq> WARN \<and> \<not> lt_OK (snd x)) tr)"

text \<open>
  What holds of the trace when the search returns \<open>st\<close>: gapped offsets inside the end, only
  the last call may have stopped the search, and then \<open>st\<close> is \<open>OK\<close> for a \<open>WARN\<close> and the
  callback's status for a failure.
\<close>

definition trace_final :: "nat \<Rightarrow> int \<Rightarrow> (nat \<times> FileStatus) list \<Rightarrow> FileStatus \<Rightarrow> bool" where
  "trace_final p e tr st =
     (gapped p (map fst tr)
      \<and> list_all (\<lambda>x. 0 \<le> e \<longrightarrow> int (fst x + p) \<le> e) tr
      \<and> list_all (\<lambda>x. snd x \<noteq> WARN \<and> \<not> lt_OK (snd x)) (butlast tr)
      \<and> (tr \<noteq> [] \<longrightarrow>
            (snd (last tr) = WARN \<longrightarrow> st = OK)
          \<and> (lt_OK (snd (last tr)) \<and> snd (last tr) \<noteq> WARN \<longrightarrow> st = snd (last tr))))"

text \<open>
  The reference for \<open>file_search\<close>, after the spec's words: the non-overlapping occurrences
  of the pattern in the searched range, left to right. \<open>ref_matches c pat i\<close> scans \<open>c\<close> from
  offset \<open>i\<close>: an occurrence at the cursor is a match and moves the cursor behind it, anything
  else moves the cursor by one byte. The searched range starts at \<open>start\<close> (at 0 when
  negative) and stops at \<open>end\<close> (at the end of the file when negative), so a match counts
  when it ends at or before \<open>end\<close>.
\<close>

function ref_matches :: "byte list \<Rightarrow> byte list \<Rightarrow> nat \<Rightarrow> nat list" where
  "ref_matches c pat i =
     (if pat = [] \<or> length c < i + length pat then []
      else if take (length pat) (drop i c) = pat then i # ref_matches c pat (i + length pat)
      else ref_matches c pat (Suc i))"
  by pat_completeness auto
termination
  by (relation "measure (\<lambda>(c, pat, i). length c - i)") (auto simp: neq_Nil_conv)

text \<open>An occurrence of the pattern at offset \<open>j\<close>, and the bytes in front of the end offset.\<close>

definition occurs_at :: "byte list \<Rightarrow> byte list \<Rightarrow> nat \<Rightarrow> bool" where
  "occurs_at c pat j = (j + length pat \<le> length c \<and> take (length pat) (drop j c) = pat)"

definition searched :: "byte list \<Rightarrow> int \<Rightarrow> byte list" where
  "searched c end = (if 0 \<le> end then take (nat end) c else c)"

definition total_matches :: "byte list \<Rightarrow> byte list \<Rightarrow> int \<Rightarrow> int \<Rightarrow> nat list" where
  "total_matches c pat start end =
     ref_matches (searched c end) pat (if 0 \<le> start then nat start else 0)"

text \<open>The first \<open>max_matches\<close> of a list of matches; a negative budget takes them all.\<close>

definition take_budget :: "int \<Rightarrow> 'a list \<Rightarrow> 'a list" where
  "take_budget max_matches xs = (if 0 < max_matches then take (nat max_matches) xs else xs)"

text \<open>A callback that always returns \<open>OK\<close> and leaves the handle as it is.\<close>

definition ok_cb :: "('s, 'u) FileSearchResultCallback \<Rightarrow> bool" where
  "ok_cb cb = (\<forall>s u off. fst (cb s u off) = OK \<and> fst (snd (cb s u off)) = s)"

text \<open>
  A callback that answers with the status \<open>f off\<close> for the offset \<open>off\<close> and leaves the
  handle as it is; the user data is its own.
\<close>

definition answers :: "('s, 'u) FileSearchResultCallback \<Rightarrow> (nat \<Rightarrow> FileStatus) \<Rightarrow> bool" where
  "answers cb f = (\<forall>s u off. fst (cb s u off) = f off \<and> fst (snd (cb s u off)) = s)"

text \<open>
  The reference for the calls of a search, after the spec's words: the matches \<open>js\<close> are
  reported in order, the trace \<open>tr\<close> grows by each call, and the result is the status of the
  search with the trace. \<open>WARN\<close> from the callback stops the search and the search reports
  \<open>OK\<close>; a status below \<open>OK\<close> aborts the search with that status; a bounded budget is
  decremented after a call and the search stops once it is used up; when no match is left
  the search ends with \<open>OK\<close>.
\<close>

fun ref_run ::
  "(nat \<Rightarrow> FileStatus) \<Rightarrow> int \<Rightarrow> nat list \<Rightarrow> (nat \<times> FileStatus) list \<Rightarrow>
   FileStatus \<times> (nat \<times> FileStatus) list" where
  "ref_run f mm [] tr = (OK, tr)"
| "ref_run f mm (j # js) tr =
     (if f j = WARN then (OK, tr @ [(j, f j)])
      else if lt_OK (f j) then (f j, tr @ [(j, f j)])
      else if mm > 0 \<and> mm - 1 = 0 then (f j, tr @ [(j, f j)])
      else ref_run f (if mm > 0 then mm - 1 else mm) js (tr @ [(j, f j)]))"

text \<open>
  What the inner loop does with a callback that answers \<open>f\<close>, on a buffer of \<open>n\<close> bytes read
  at \<open>offset\<close> of the content \<open>c\<close>, started with the trace \<open>tr\<close>, the budget \<open>mm\<close> and the
  cursor at the absolute offset \<open>cur\<close>: it either ends the search with the result of the
  reference run over the reference matches from \<open>cur\<close> on, or it leaves to the next buffer
  a run that has the same result.
\<close>

definition run_post ::
  "byte list \<Rightarrow> byte list \<Rightarrow> int \<Rightarrow> (nat \<Rightarrow> FileStatus) \<Rightarrow> nat \<Rightarrow> nat \<Rightarrow> int \<Rightarrow> nat \<Rightarrow> 's \<Rightarrow>
   (nat \<times> FileStatus) list \<Rightarrow> ('s, 'u \<times> (nat \<times> FileStatus) list) search_exit \<Rightarrow> bool" where
  "run_post c pat e f offset n mm cur s tr ex =
     (case ex of
        Done r s' ut' \<Rightarrow>
          s' = s \<and> (r, snd ut') = ref_run f mm (ref_matches (searched c e) pat cur) tr
      | Refill mr' mm' s' ut' \<Rightarrow>
          s' = s \<and> mr' \<le> n \<and> mm' \<noteq> 0
          \<and> ref_run f mm'
                (ref_matches (searched c e) pat (offset + (n - min mr' (length pat - 1))))
                (snd ut')
              = ref_run f mm (ref_matches (searched c e) pat cur) tr)"

text \<open>
  The scripted handle can be brought to the offset \<open>off\<close>: it seeks, or it stands at the
  beginning of the file, as \<open>file_search\<close> asks of a handle that cannot seek, and the
  discard that replaces the seek reads exactly \<open>off\<close> bytes.
\<close>

definition skips_to :: "mem_file \<Rightarrow> nat \<Rightarrow> bool" where
  "skips_to m off =
     (seekable m
      \<or> (pos m = 0
         \<and> (case file_read_discard MemFile m off of
               Some (st, n, m') \<Rightarrow> \<not> lt_OK st \<and> n = off
             | None \<Rightarrow> False)))"

text \<open>
  The arguments of a search pass the checks of \<open>file_search\<close>: the range is not rejected,
  the buffer size is 0 or at least the pattern size, the pattern size is a \<open>size_t\<close>, and
  the buffer is allocated.
\<close>

definition search_args_ok :: "(nat \<Rightarrow> bool) \<Rightarrow> int \<Rightarrow> int \<Rightarrow> nat \<Rightarrow> byte list \<Rightarrow> bool" where
  "search_args_ok malloc start end bsize pattern =
     (\<not> (0 \<le> start \<and> 0 \<le> end \<and> end < start)
      \<and> (bsize = 0 \<or> length pattern \<le> bsize)
      \<and> length pattern \<le> SIZE_MAX
      \<and> malloc (if bsize \<noteq> 0 then bsize
                 else if length pattern > SIZE_MAX div 2 then SIZE_MAX
                 else max DEFAULT_BUFFER_SIZE (length pattern * 2)))"

text \<open>
  What a search on the scripted handle needs to run to its end: the arguments pass the
  checks, no read fails, the file offsets are \<open>uint64_t\<close>, and the handle can be brought to
  the start offset.
\<close>

definition search_ready ::
  "mem_file \<Rightarrow> (nat \<Rightarrow> bool) \<Rightarrow> int \<Rightarrow> int \<Rightarrow> nat \<Rightarrow> byte list \<Rightarrow> bool" where
  "search_ready m malloc start end bsize pattern =
     (search_args_ok malloc start end bsize pattern
      \<and> (\<forall>x\<in>set (sched m). no_fail x)
      \<and> length (content m) \<le> UINT64_MAX
      \<and> skips_to m (if 0 \<le> start then nat start else 0))"

text \<open>
  The match budget in the inner loop, started with \<open>k\<close> calls made and the budget \<open>mm > 0\<close>:
  the calls never exceed \<open>k + mm\<close>, and what is not used stays as the budget.
\<close>

definition budget_post ::
  "nat \<Rightarrow> int \<Rightarrow> ('s, 'u \<times> (nat \<times> FileStatus) list) search_exit \<Rightarrow> bool" where
  "budget_post k mm ex =
     (case ex of
        Done r s' ut' \<Rightarrow> length (snd ut') \<le> k + nat mm
      | Refill mr' mm' s' ut' \<Rightarrow> 0 < mm' \<and> length (snd ut') + nat mm' = k + nat mm)"

text \<open>What the inner loop guarantees for a buffer of \<open>n\<close> bytes read at \<open>offset\<close>.\<close>

definition inner_post ::
  "nat \<Rightarrow> int \<Rightarrow> nat \<Rightarrow> nat \<Rightarrow> ('s, 'u \<times> (nat \<times> FileStatus) list) search_exit \<Rightarrow> bool" where
  "inner_post p e offset n ex =
     (case ex of
        Done r s' ut' \<Rightarrow> trace_final p e (snd ut') r
      | Refill mr mm s' ut' \<Rightarrow> mr \<le> n \<and> trace_inv p e (offset + (n - mr)) (snd ut'))"

text \<open>
  A seekable sample handle, a callback that records the offsets it is given, and a callback
  that answers with a status chosen by the offset and counts its calls.
\<close>

definition answer_cb :: "(nat \<Rightarrow> FileStatus) \<Rightarrow> ('s, nat) FileSearchResultCallback" where
  "answer_cb f s u off = (f off, s, Suc u)"


definition demo_file :: "byte list \<Rightarrow> sched_item list \<Rightarrow> mem_file" where
  "demo_file c sch =
     \<lparr>content = c, pos = 0, cap = 100, seekable = True, sched = sch, last_error = None\<rparr>"

definition record_cb :: "('s, nat list) FileSearchResultCallback" where
  "record_cb s u off = (OK, s, u @ [off])"

section \<open>Properties of the retrying transfer\<close>


lemma lt_OK_simps [simp]:
  "lt_OK OK = False" "lt_OK RETRY = False" "lt_OK UNSUPPORTED = True"
  "lt_OK WARN = True" "lt_OK FAILED = True" "lt_OK FATAL = True"
  by (simp_all add: lt_OK_def)

lemma read_fully_loop_status:
  "read_fully_loop F s sz buf = Some r \<Longrightarrow>
     fst r \<noteq> RETRY \<and> (fst r \<noteq> OK \<longrightarrow> lt_OK (fst r))"
  apply (rule read_fully_loop.raw_induct
      [where P = "\<lambda>F s sz buf r. fst r \<noteq> RETRY \<and> (fst r \<noteq> OK \<longrightarrow> lt_OK (fst r))"])
   apply (auto split: if_splits prod.splits)
  done

lemma write_fully_loop_status:
  "write_fully_loop F s buf w = Some r \<Longrightarrow>
     fst r \<noteq> RETRY \<and> (fst r \<noteq> OK \<longrightarrow> lt_OK (fst r))"
  apply (rule write_fully_loop.raw_induct
      [where P = "\<lambda>F s buf w r. fst r \<noteq> RETRY \<and> (fst r \<noteq> OK \<longrightarrow> lt_OK (fst r))"])
   apply (auto split: if_splits prod.splits)
  done

lemma MemFile_simps [simp]:
  "File_read MemFile = mem_read" "File_write MemFile = mem_write"
  "File_seek MemFile = mem_seek" "File_set_error MemFile = mem_set_error"
  by (simp_all add: MemFile_def)

lemma read_post_chunk:
  assumes "read_post (s\<lparr>pos := pos s + length c, sched := rest\<rparr>) sz (buf @ c) r"
    and "take (length c) (drop (pos s) (content s)) = c"
    and "set rest \<subseteq> set (sched s)"
    and "length c \<le> sz - length buf"
  shows "read_post s sz buf r"
proof -
  let ?s1 = "s\<lparr>pos := pos s + length c, sched := rest\<rparr>"
  from assms(1)[unfolded read_post_def] obtain st d sch' where
    r0: "r = (st, (buf @ c) @ d, ?s1\<lparr>pos := pos ?s1 + length d, sched := sch'\<rparr>)"
    and d0: "take (length d) (drop (pos ?s1) (content ?s1)) = d"
    and l: "length d \<le> sz - length (buf @ c)"
    and ok0: "st = OK \<longrightarrow> length d = min (sz - length (buf @ c)) (length (content ?s1) - pos ?s1)"
    and nok0: "st \<noteq> OK \<longrightarrow> lt_OK st \<and> Fail st \<in> set (sched ?s1)"
    and nf0: "(\<forall>x\<in>set (sched ?s1). no_fail x) \<longrightarrow> st = OK"
    and sub0: "set sch' \<subseteq> set (sched ?s1)"
    by blast
  have d: "take (length d) (drop (pos s + length c) (content s)) = d" using d0 by simp
  have ok: "st = OK \<longrightarrow> length d = min (sz - (length buf + length c)) (length (content s) - (pos s + length c))"
    using ok0 by simp
  have nok: "st \<noteq> OK \<longrightarrow> lt_OK st \<and> Fail st \<in> set rest" using nok0 by simp
  have nf: "(\<forall>x\<in>set rest. no_fail x) \<longrightarrow> st = OK" using nf0 by simp
  have sub: "set sch' \<subseteq> set rest" using sub0 by simp
  have "length (take (length c) (drop (pos s) (content s))) = length c"
    using assms(2) by simp
  then have cl: "length c \<le> length (content s) - pos s" by simp
  have "take (length c + length d) (drop (pos s) (content s))
          = take (length c) (drop (pos s) (content s))
            @ take (length d) (drop (length c) (drop (pos s) (content s)))"
    by (rule take_add)
  also have "drop (length c) (drop (pos s) (content s)) = drop (pos s + length c) (content s)"
    by (simp add: add.commute)
  finally have 1: "take (length (c @ d)) (drop (pos s) (content s)) = c @ d"
    using assms(2) d by simp
  have 2: "length (c @ d) \<le> sz - length buf" using l assms(4) by simp
  have 3: "st = OK \<longrightarrow> length (c @ d) = min (sz - length buf) (length (content s) - pos s)"
    using ok assms(4) cl by (simp add: min_def) arith
  have 4: "st \<noteq> OK \<longrightarrow> lt_OK st \<and> Fail st \<in> set (sched s)" using nok assms(3) by blast
  have 5: "(\<forall>x\<in>set (sched s). no_fail x) \<longrightarrow> st = OK" using nf assms(3) by blast
  have 6: "set sch' \<subseteq> set (sched s)" using sub assms(3) by blast
  have 7: "r = (st, buf @ (c @ d), s\<lparr>pos := pos s + length (c @ d), sched := sch'\<rparr>)"
    using r0 by (simp add: add.assoc)
  show ?thesis unfolding read_post_def using 1 2 3 4 5 6 7 by blast
qed



lemma read_post_stop:
  assumes "st = OK \<longrightarrow> sz \<le> length buf \<or> length (content s) \<le> pos s"
    and "st \<noteq> OK \<longrightarrow> lt_OK st \<and> Fail st \<in> set (sched s)"
    and "(\<forall>x\<in>set (sched s). no_fail x) \<longrightarrow> st = OK"
    and "set rest \<subseteq> set (sched s)"
  shows "read_post s sz buf (st, buf, s\<lparr>sched := rest\<rparr>)"
  unfolding read_post_def
  apply (rule exI[of _ st], rule exI[of _ "[]"], rule exI[of _ rest])
  using assms by (auto simp: min_def)


lemma mem_read_fully_loop:
  assumes "\<forall>x\<in>set (sched s). sched_item_ok x"
  shows "\<exists>r. read_fully_loop MemFile s sz buf = Some r \<and> read_post s sz buf r"
  using assms
proof (induction "length (sched s) + (sz - length buf)" arbitrary: s buf rule: less_induct)
  case less
  show ?case
  proof (cases "length buf < sz")
    case False
    have "read_fully_loop MemFile s sz buf = Some (OK, buf, s)"
      using False by (subst read_fully_loop.simps) simp
    moreover have "read_post s sz buf (OK, buf, s\<lparr>sched := sched s\<rparr>)"
      using False by (intro read_post_stop) auto
    ultimately show ?thesis by simp
  next
    case True
    have chunk: "\<exists>r. read_fully_loop MemFile s sz buf = Some r \<and> read_post s sz buf r"
      if rd: "mem_read s (sz - length buf)
               = (OK, take m (drop (pos s) (content s)),
                  s\<lparr>pos := pos s + length (take m (drop (pos s) (content s))), sched := rest\<rparr>)"
        and m: "0 < m" "m \<le> sz - length buf" and rest: "set rest \<subseteq> set (sched s)"
        and dec: "length rest \<le> length (sched s)"
      for m rest
    proof (cases "take m (drop (pos s) (content s)) = []")
      case True
      then have "length (content s) \<le> pos s" using m by (cases "drop (pos s) (content s)") auto
      then have "read_post s sz buf (OK, buf, s\<lparr>sched := rest\<rparr>)"
        using rest by (intro read_post_stop) auto
      moreover have "read_fully_loop MemFile s sz buf = Some (OK, buf, s\<lparr>sched := rest\<rparr>)"
        using \<open>length buf < sz\<close> rd True by (subst read_fully_loop.simps) simp
      ultimately show ?thesis by simp
    next
      case False
      let ?c = "take m (drop (pos s) (content s))"
      let ?s' = "s\<lparr>pos := pos s + length ?c, sched := rest\<rparr>"
      have c0: "0 < length ?c" using False length_greater_0_conv by blast
      have "sz - (length buf + length ?c) < sz - length buf"
        using c0 \<open>length buf < sz\<close> by linarith
      then have "length (sched ?s') + (sz - length (buf @ ?c)) < length (sched s) + (sz - length buf)"
        using dec by simp
      moreover have "\<forall>x\<in>set (sched ?s'). sched_item_ok x" using less.prems rest by auto
      ultimately obtain r where
        R: "read_fully_loop MemFile ?s' sz (buf @ ?c) = Some r" and P: "read_post ?s' sz (buf @ ?c) r"
        using less.hyps[of ?s' "buf @ ?c"] by blast
      have "read_fully_loop MemFile s sz buf = Some r"
        using \<open>length buf < sz\<close> rd False R by (subst read_fully_loop.simps) simp
      moreover have "read_post s sz buf r"
      proof -
        have tk: "take (length ?c) (drop (pos s) (content s)) = ?c" by (simp add: min_def)
        have lc: "length ?c \<le> sz - length buf" using m by simp
        show ?thesis by (rule read_post_chunk[OF P tk rest lc])
      qed
      ultimately show ?thesis by blast
    qed
    show ?thesis
    proof (cases "sched s")
      case Nil
      have "mem_read s (sz - length buf)
               = (OK, take (sz - length buf) (drop (pos s) (content s)),
                  s\<lparr>pos := pos s + length (take (sz - length buf) (drop (pos s) (content s))), sched := []\<rparr>)"
        using Nil by (simp add: mem_read_def)
      then show ?thesis using True by (intro chunk[of "sz - length buf" "[]"]) simp_all
    next
      case (Cons x rest)
      show ?thesis
      proof (cases x)
        case Again
        let ?s' = "s\<lparr>sched := rest\<rparr>"
        have "length (sched ?s') + (sz - length buf) < length (sched s) + (sz - length buf)"
          using Cons by simp
        moreover have "\<forall>x\<in>set (sched ?s'). sched_item_ok x" using less.prems Cons by simp
        ultimately obtain r where
          R: "read_fully_loop MemFile ?s' sz buf = Some r" and P: "read_post ?s' sz buf r"
          using less.hyps[of ?s' buf] by blast
        have "read_fully_loop MemFile s sz buf = Some r"
          using True Cons Again R by (subst read_fully_loop.simps) (simp add: mem_read_def)
        moreover have "read_post s sz buf r"
          using read_post_chunk[where s = s and c = "[]" and rest = rest and sz = sz
              and buf = buf and r = r] P Cons by auto
        ultimately show ?thesis by blast
      next
        case (AtMost k)
        have "mem_read s (sz - length buf)
               = (OK, take (min (sz - length buf) (Suc k)) (drop (pos s) (content s)),
                  s\<lparr>pos := pos s + length (take (min (sz - length buf) (Suc k)) (drop (pos s) (content s))),
                    sched := rest\<rparr>)"
          using Cons AtMost by (simp add: mem_read_def)
        then show ?thesis using True Cons
          by (intro chunk[of "min (sz - length buf) (Suc k)" rest]) auto
      next
        case (Fail st)
        have st: "lt_OK st" using less.prems Cons Fail by simp
        then have ne: "st \<noteq> RETRY" "st \<noteq> OK" by auto
        have "read_fully_loop MemFile s sz buf = Some (st, buf, s\<lparr>sched := rest\<rparr>)"
          using True Cons Fail st ne by (subst read_fully_loop.simps) (simp add: mem_read_def)
        moreover have "read_post s sz buf (st, buf, s\<lparr>sched := rest\<rparr>)"
          using Cons Fail st ne by (intro read_post_stop) auto
        ultimately show ?thesis by blast
      qed
    qed
  qed
qed



lemma mem_put_Nil [simp]: "mem_put c p [] = c"
  by (simp add: mem_put_def)

lemma length_mem_put:
  "length (mem_put c p d) = (if d = [] then length c else max (length c) (p + length d))"
  by (simp add: mem_put_def) arith

lemma nth_mem_put:
  "i < length (mem_put c p d) \<Longrightarrow>
     mem_put c p d ! i =
       (if d \<noteq> [] \<and> p \<le> i \<and> i < p + length d then d ! (i - p)
        else if i < length c then c ! i else 0)"
  by (auto simp: mem_put_def nth_append min_def)

lemma mem_put_forwards:
  "mem_put (mem_put c p a) (p + length a) b = mem_put c p (a @ b)"
proof (cases "a = [] \<or> b = []")
  case True
  then show ?thesis by auto
next
  case False
  show ?thesis
  proof (rule nth_equalityI)
    show "length (mem_put (mem_put c p a) (p + length a) b) = length (mem_put c p (a @ b))"
      using False by (simp add: length_mem_put)
  next
    fix i assume "i < length (mem_put (mem_put c p a) (p + length a) b)"
    then have i: "i < max (length c) (p + length a + length b)"
      using False by (simp add: length_mem_put)
    then show "mem_put (mem_put c p a) (p + length a) b ! i = mem_put c p (a @ b) ! i"
      using False by (auto simp: nth_mem_put length_mem_put nth_append)
  qed
qed

lemma mem_put_backwards:
  "mem_put (mem_put c (p + length a) b) p a = mem_put c p (a @ b)"
proof (cases "a = [] \<or> b = []")
  case True
  then show ?thesis by auto
next
  case False
  show ?thesis
  proof (rule nth_equalityI)
    show "length (mem_put (mem_put c (p + length a) b) p a) = length (mem_put c p (a @ b))"
      using False by (simp add: length_mem_put)
  next
    fix i assume "i < length (mem_put (mem_put c (p + length a) b) p a)"
    then have i: "i < max (length c) (p + length a + length b)"
      using False by (simp add: length_mem_put)
    then show "mem_put (mem_put c (p + length a) b) p a ! i = mem_put c p (a @ b) ! i"
      using False by (auto simp: nth_mem_put length_mem_put nth_append)
  qed
qed




lemma min_shift: "c \<le> a \<Longrightarrow> c \<le> b \<Longrightarrow> c + min (a - c) (b - c) = min a (b::nat)"
  by arith

lemma write_post_chunk:
  assumes "write_post (s\<lparr>content := mem_put (content s) (pos s) (take m (drop w buf)),
                         pos := pos s + m, sched := rest\<rparr>) buf (w + m) r"
    and "m \<le> length buf - w" and "m \<le> cap s - pos s"
    and "set rest \<subseteq> set (sched s)"
  shows "write_post s buf w r"
proof -
  let ?c = "take m (drop w buf)"
  let ?s1 = "s\<lparr>content := mem_put (content s) (pos s) ?c, pos := pos s + m, sched := rest\<rparr>"
  from assms(1)[unfolded write_post_def] obtain st n sch' where
    r0: "r = (st, w + m + n,
           ?s1\<lparr>content := mem_put (content ?s1) (pos ?s1) (take n (drop (w + m) buf)),
             pos := pos ?s1 + n, sched := sch'\<rparr>)"
    and l0: "n \<le> length buf - (w + m)"
    and ok0: "st = OK \<longrightarrow> n = min (length buf - (w + m)) (cap ?s1 - pos ?s1)"
    and nok0: "st \<noteq> OK \<longrightarrow> lt_OK st \<and> Fail st \<in> set (sched ?s1)"
    and nf0: "(\<forall>x\<in>set (sched ?s1). no_fail x) \<longrightarrow> st = OK"
    and sub0: "set sch' \<subseteq> set (sched ?s1)"
    by blast
  have lc: "length ?c = m" using assms(2) by simp
  have "mem_put (mem_put (content s) (pos s) ?c) (pos s + length ?c) (take n (drop (w + m) buf))
          = mem_put (content s) (pos s) (?c @ take n (drop (w + m) buf))"
    by (rule mem_put_forwards)
  moreover have "?c @ take n (drop (w + m) buf) = take (m + n) (drop w buf)"
    by (simp add: take_add add.commute)
  ultimately have put: "mem_put (mem_put (content s) (pos s) ?c) (pos s + m) (take n (drop (w + m) buf))
          = mem_put (content s) (pos s) (take (m + n) (drop w buf))"
    using lc by simp
  have ok: "st = OK \<longrightarrow> n = min (length buf - w - m) (cap s - pos s - m)"
    using ok0 by simp
  have 1: "r = (st, w + (m + n),
           s\<lparr>content := mem_put (content s) (pos s) (take (m + n) (drop w buf)),
             pos := pos s + (m + n), sched := sch'\<rparr>)"
    using r0 put by (simp add: add.assoc)
  have 2: "m + n \<le> length buf - w" using l0 assms(2) by simp
  have 3: "st = OK \<longrightarrow> m + n = min (length buf - w) (cap s - pos s)"
    using ok min_shift[OF assms(2) assms(3)] by simp
  have 4: "st \<noteq> OK \<longrightarrow> lt_OK st \<and> Fail st \<in> set (sched s)" using nok0 assms(4) by auto
  have 5: "(\<forall>x\<in>set (sched s). no_fail x) \<longrightarrow> st = OK" using nf0 assms(4) by auto
  have 6: "set sch' \<subseteq> set (sched s)" using sub0 assms(4) by auto
  show ?thesis unfolding write_post_def using 1 2 3 4 5 6 by blast
qed

lemma write_post_stop:
  assumes "st = OK \<longrightarrow> length buf \<le> w \<or> cap s \<le> pos s"
    and "st \<noteq> OK \<longrightarrow> lt_OK st \<and> Fail st \<in> set (sched s)"
    and "(\<forall>x\<in>set (sched s). no_fail x) \<longrightarrow> st = OK"
    and "set rest \<subseteq> set (sched s)"
  shows "write_post s buf w (st, w, s\<lparr>sched := rest\<rparr>)"
  unfolding write_post_def
  apply (rule exI[of _ st], rule exI[of _ "0"], rule exI[of _ rest])
  using assms by (auto simp: min_def)




lemma mem_write_fully_loop:
  assumes "\<forall>x\<in>set (sched s). sched_item_ok x"
  shows "\<exists>r. write_fully_loop MemFile s buf w = Some r \<and> write_post s buf w r"
  using assms
proof (induction "length (sched s) + (length buf - w)" arbitrary: s w rule: less_induct)
  case less
  show ?case
  proof (cases "w < length buf")
    case False
    have "write_fully_loop MemFile s buf w = Some (OK, w, s)"
      using False by (subst write_fully_loop.simps) simp
    moreover have "write_post s buf w (OK, w, s\<lparr>sched := sched s\<rparr>)"
      using False by (intro write_post_stop) auto
    ultimately show ?thesis by simp
  next
    case True
    have chunk: "\<exists>r. write_fully_loop MemFile s buf w = Some r \<and> write_post s buf w r"
      if wr: "mem_write s (drop w buf)
               = (OK, length (take M (drop w buf)),
                  s\<lparr>content := mem_put (content s) (pos s) (take M (drop w buf)),
                    pos := pos s + length (take M (drop w buf)), sched := rest\<rparr>)"
        and M: "M \<le> cap s - pos s" "M = 0 \<longrightarrow> cap s \<le> pos s"
        and rest: "set rest \<subseteq> set (sched s)"
        and dec: "length rest \<le> length (sched s)"
      for M rest
    proof (cases "take M (drop w buf) = []")
      case True
      then have "M = 0" using \<open>w < length buf\<close> by simp
      then have "cap s \<le> pos s" using M by simp
      then have "write_post s buf w (OK, w, s\<lparr>sched := rest\<rparr>)"
        using rest by (intro write_post_stop) auto
      moreover have "write_fully_loop MemFile s buf w = Some (OK, w, s\<lparr>sched := rest\<rparr>)"
        using \<open>w < length buf\<close> wr True by (subst write_fully_loop.simps) simp
      ultimately show ?thesis by simp
    next
      case False
      let ?c = "take M (drop w buf)"
      let ?m = "length ?c"
      let ?s' = "s\<lparr>content := mem_put (content s) (pos s) ?c, pos := pos s + ?m, sched := rest\<rparr>"
      have c0: "0 < ?m" using False length_greater_0_conv by blast
      have "length buf - (w + ?m) < length buf - w"
        using c0 \<open>w < length buf\<close> by linarith
      then have "length (sched ?s') + (length buf - (w + ?m)) < length (sched s) + (length buf - w)"
        using dec by simp
      moreover have "\<forall>x\<in>set (sched ?s'). sched_item_ok x" using less.prems rest by auto
      ultimately obtain r where
        R: "write_fully_loop MemFile ?s' buf (w + ?m) = Some r" and P: "write_post ?s' buf (w + ?m) r"
        using less.hyps[of ?s' "w + ?m"] by blast
      have "write_fully_loop MemFile s buf w = Some r"
        using \<open>w < length buf\<close> wr c0 R
        by (subst write_fully_loop.simps) (simp del: length_take)
      moreover have "write_post s buf w r"
      proof -
        have tk: "take ?m (drop w buf) = ?c" by (simp add: min_def)
        have l1: "?m \<le> length buf - w" by simp
        have l2: "?m \<le> cap s - pos s" using M by simp
        have P': "write_post (s\<lparr>content := mem_put (content s) (pos s) (take ?m (drop w buf)),
                         pos := pos s + ?m, sched := rest\<rparr>) buf (w + ?m) r"
          using P by (simp only: tk)
        show ?thesis by (rule write_post_chunk[OF P' l1 l2 rest])
      qed
      ultimately show ?thesis by blast
    qed
    show ?thesis
    proof (cases "sched s")
      case Nil
      have "mem_write s (drop w buf)
               = (OK, length (take (cap s - pos s) (drop w buf)),
                  s\<lparr>content := mem_put (content s) (pos s) (take (cap s - pos s) (drop w buf)),
                    pos := pos s + length (take (cap s - pos s) (drop w buf)), sched := []\<rparr>)"
        using Nil by (simp add: mem_write_def)
      then show ?thesis using True by (intro chunk[of "cap s - pos s" "[]"]) simp_all
    next
      case (Cons x rest)
      show ?thesis
      proof (cases x)
        case Again
        let ?s' = "s\<lparr>sched := rest\<rparr>"
        have "length (sched ?s') + (length buf - w) < length (sched s) + (length buf - w)"
          using Cons by simp
        moreover have "\<forall>x\<in>set (sched ?s'). sched_item_ok x" using less.prems Cons by simp
        ultimately obtain r where
          R: "write_fully_loop MemFile ?s' buf w = Some r" and P: "write_post ?s' buf w r"
          using less.hyps[of ?s' w] by blast
        have "write_fully_loop MemFile s buf w = Some r"
          using True Cons Again R by (subst write_fully_loop.simps) (simp add: mem_write_def)
        moreover have "write_post s buf w r"
          using write_post_chunk[where s = s and m = 0 and rest = rest and w = w
              and buf = buf and r = r] P Cons by auto
        ultimately show ?thesis by blast
      next
        case (AtMost k)
        have "mem_write s (drop w buf)
               = (OK, length (take (min (Suc k) (cap s - pos s)) (drop w buf)),
                  s\<lparr>content := mem_put (content s) (pos s) (take (min (Suc k) (cap s - pos s)) (drop w buf)),
                    pos := pos s + length (take (min (Suc k) (cap s - pos s)) (drop w buf)),
                    sched := rest\<rparr>)"
          using Cons AtMost by (simp add: mem_write_def)
        then show ?thesis using True Cons
          by (intro chunk[of "min (Suc k) (cap s - pos s)" rest]) auto
      next
        case (Fail st)
        have st: "lt_OK st" using less.prems Cons Fail by simp
        then have ne: "st \<noteq> RETRY" "st \<noteq> OK" by auto
        have "write_fully_loop MemFile s buf w = Some (st, w, s\<lparr>sched := rest\<rparr>)"
          using True Cons Fail st ne by (subst write_fully_loop.simps) (simp add: mem_write_def)
        moreover have "write_post s buf w (st, w, s\<lparr>sched := rest\<rparr>)"
          using Cons Fail st ne by (intro write_post_stop) auto
        ultimately show ?thesis by blast
      qed
    qed
  qed
qed

subsection \<open>The transfer against the script\<close>

lemma take_take_drop:
  "take k (drop a xs) @ take n (drop (a + k) xs) = take (k + n) (drop a xs)"
  by (simp add: take_add add.commute)

lemma mem_file_same [simp]:
  "sched s = r \<Longrightarrow> s\<lparr>sched := r\<rparr> = (s :: mem_file)"
  by (cases s) simp

lemma mem_read_fully_script:
  assumes "\<forall>x\<in>set (sched s). sched_item_ok x"
  shows "read_fully_loop MemFile s sz buf =
           Some (case script_transfer (sched s) (length (content s) - pos s) (sz - length buf) of
                   (st, n, r) \<Rightarrow>
                     (st, buf @ take n (drop (pos s) (content s)), s\<lparr>pos := pos s + n, sched := r\<rparr>))"
  using assms
proof (induction sch \<equiv> "sched s" arbitrary: s buf)
  case Nil
  then have e: "sched s = []" by simp
  from mem_read_fully_loop[OF Nil(2), of sz buf] obtain r where
    R: "read_fully_loop MemFile s sz buf = Some r" and P: "read_post s sz buf r" by blast
  from P[unfolded read_post_def] obtain st d sch' where
    r: "r = (st, buf @ d, s\<lparr>pos := pos s + length d, sched := sch'\<rparr>)"
    and d: "take (length d) (drop (pos s) (content s)) = d"
    and ok: "st = OK \<longrightarrow> length d = min (sz - length buf) (length (content s) - pos s)"
    and nf: "(\<forall>x\<in>set (sched s). no_fail x) \<longrightarrow> st = OK"
    and sub: "set sch' \<subseteq> set (sched s)"
    by blast
  have st: "st = OK" using nf e by simp
  have sch': "sch' = []" using sub e by simp
  have ld: "length d = min (sz - length buf) (length (content s) - pos s)" using ok st by simp
  have "d = take (min (sz - length buf) (length (content s) - pos s)) (drop (pos s) (content s))"
    using d ld by simp
  then show ?case unfolding R r e st sch' script_transfer.simps prod.case using ld by simp
next
  case (Cons x rest)
  then have e: "sched s = x # rest" by simp
  have okr: "\<forall>x\<in>set rest. sched_item_ok x" and okx: "sched_item_ok x"
    using Cons.prems e by simp_all
  show ?case
  proof (cases "length buf < sz")
    case False
    have "read_fully_loop MemFile s sz buf = Some (OK, buf, s)"
      using False by (subst read_fully_loop.simps) simp
    moreover have "sz - length buf = 0" using False by simp
    ultimately show ?thesis unfolding e script_transfer.simps using e by simp
  next
    case True
    then have w0: "sz - length buf \<noteq> 0" by simp
    show ?thesis
    proof (cases x)
      case Again
      let ?s1 = "s\<lparr>sched := rest\<rparr>"
      have "read_fully_loop MemFile s sz buf = read_fully_loop MemFile ?s1 sz buf"
        using True e Again by (subst read_fully_loop.simps) (simp add: mem_read_def)
      moreover have "rest = sched ?s1" by simp
      moreover have "\<forall>x\<in>set (sched ?s1). sched_item_ok x" using okr by simp
      ultimately have "read_fully_loop MemFile s sz buf =
           Some (case script_transfer (sched ?s1) (length (content ?s1) - pos ?s1) (sz - length buf) of
                   (st, n, r) \<Rightarrow>
                     (st, buf @ take n (drop (pos ?s1) (content ?s1)), ?s1\<lparr>pos := pos ?s1 + n, sched := r\<rparr>))"
        using Cons.hyps(1)[of ?s1 buf] by simp
      then show ?thesis unfolding e script_transfer.simps if_not_P[OF w0] Again sched_item.case
        by (simp split: prod.splits)
    next
      case (Fail st)
      have st: "lt_OK st" using okx Fail by simp
      then have ne: "st \<noteq> RETRY" by auto
      have "read_fully_loop MemFile s sz buf = Some (st, buf, s\<lparr>sched := rest\<rparr>)"
        using True e Fail st ne by (subst read_fully_loop.simps) (simp add: mem_read_def)
      then show ?thesis unfolding e script_transfer.simps if_not_P[OF w0] Fail sched_item.case
        by simp
    next
      case (AtMost k)
      define n where "n = min (min (sz - length buf) (Suc k)) (length (content s) - pos s)"
      define d where "d = take (min (sz - length buf) (Suc k)) (drop (pos s) (content s))"
      have ld: "length d = n" unfolding d_def n_def by simp
      have dn: "d = take n (drop (pos s) (content s))"
        unfolding d_def n_def by (simp add: min_def)
      let ?s1 = "s\<lparr>pos := pos s + n, sched := rest\<rparr>"
      have rd: "mem_read s (sz - length buf) = (OK, d, ?s1)"
        using e AtMost ld unfolding d_def by (simp add: mem_read_def)
      show ?thesis
      proof (cases "n = 0")
        case True
        then have "d = []" using ld by simp
        then have "read_fully_loop MemFile s sz buf = Some (OK, buf, ?s1)"
          using \<open>length buf < sz\<close> rd by (subst read_fully_loop.simps) simp
        then show ?thesis
          unfolding e script_transfer.simps if_not_P[OF w0] AtMost sched_item.case
            n_def[symmetric] if_P[OF True] using True by simp
      next
        case False
        then have "d \<noteq> []" using ld by auto
        then have step: "read_fully_loop MemFile s sz buf = read_fully_loop MemFile ?s1 sz (buf @ d)"
          using \<open>length buf < sz\<close> rd by (subst read_fully_loop.simps) simp
        have "rest = sched ?s1" by simp
        moreover have "\<forall>x\<in>set (sched ?s1). sched_item_ok x" using okr by simp
        ultimately have ih: "read_fully_loop MemFile ?s1 sz (buf @ d) =
           Some (case script_transfer (sched ?s1) (length (content ?s1) - pos ?s1) (sz - length (buf @ d)) of
                   (st, m, r) \<Rightarrow>
                     (st, (buf @ d) @ take m (drop (pos ?s1) (content ?s1)),
                      ?s1\<lparr>pos := pos ?s1 + m, sched := r\<rparr>))"
          by (rule Cons.hyps(1))
        obtain st m r where t: "script_transfer rest (length (content s) - pos s - n) (sz - length buf - n) = (st, m, r)"
          by (cases "script_transfer rest (length (content s) - pos s - n) (sz - length buf - n)") auto
        have cat: "d @ take m (drop (pos s + n) (content s)) = take (n + m) (drop (pos s) (content s))"
          unfolding dn by (rule take_take_drop)
        have "read_fully_loop MemFile s sz buf
                = Some (st, buf @ take (n + m) (drop (pos s) (content s)),
                        s\<lparr>pos := pos s + (n + m), sched := r\<rparr>)"
          unfolding step ih using t cat ld by (simp add: add.assoc)
        then show ?thesis
          unfolding e script_transfer.simps if_not_P[OF w0] AtMost sched_item.case
            n_def[symmetric] if_not_P[OF False] t prod.case .
      qed
    qed
  qed
qed

lemma mem_write_fully_script:
  assumes "\<forall>x\<in>set (sched s). sched_item_ok x"
  shows "write_fully_loop MemFile s buf w =
           Some (case script_transfer (sched s) (cap s - pos s) (length buf - w) of
                   (st, n, r) \<Rightarrow>
                     (st, w + n,
                      s\<lparr>content := mem_put (content s) (pos s) (take n (drop w buf)),
                        pos := pos s + n, sched := r\<rparr>))"
  using assms
proof (induction sch \<equiv> "sched s" arbitrary: s w)
  case Nil
  then have e: "sched s = []" by simp
  from mem_write_fully_loop[OF Nil(2), of buf w] obtain r where
    R: "write_fully_loop MemFile s buf w = Some r" and P: "write_post s buf w r" by blast
  from P[unfolded write_post_def] obtain st n sch' where
    r: "r = (st, w + n,
           s\<lparr>content := mem_put (content s) (pos s) (take n (drop w buf)),
             pos := pos s + n, sched := sch'\<rparr>)"
    and ok: "st = OK \<longrightarrow> n = min (length buf - w) (cap s - pos s)"
    and nf: "(\<forall>x\<in>set (sched s). no_fail x) \<longrightarrow> st = OK"
    and sub: "set sch' \<subseteq> set (sched s)"
    by blast
  have st: "st = OK" using nf e by simp
  have sch': "sch' = []" using sub e by simp
  have n: "n = min (length buf - w) (cap s - pos s)" using ok st by simp
  show ?case unfolding R r e st sch' script_transfer.simps prod.case n ..
next
  case (Cons x rest)
  then have e: "sched s = x # rest" by simp
  have okr: "\<forall>x\<in>set rest. sched_item_ok x" and okx: "sched_item_ok x"
    using Cons.prems e by simp_all
  show ?case
  proof (cases "w < length buf")
    case False
    have "write_fully_loop MemFile s buf w = Some (OK, w, s)"
      using False by (subst write_fully_loop.simps) simp
    moreover have "length buf - w = 0" using False by simp
    ultimately show ?thesis unfolding e script_transfer.simps using e by (simp add: mem_put_def)
  next
    case True
    then have w0: "length buf - w \<noteq> 0" by simp
    show ?thesis
    proof (cases x)
      case Again
      let ?s1 = "s\<lparr>sched := rest\<rparr>"
      have "write_fully_loop MemFile s buf w = write_fully_loop MemFile ?s1 buf w"
        using True e Again by (subst write_fully_loop.simps) (simp add: mem_write_def)
      moreover have "rest = sched ?s1" by simp
      moreover have "\<forall>x\<in>set (sched ?s1). sched_item_ok x" using okr by simp
      ultimately have "write_fully_loop MemFile s buf w =
           Some (case script_transfer (sched ?s1) (cap ?s1 - pos ?s1) (length buf - w) of
                   (st, n, r) \<Rightarrow>
                     (st, w + n,
                      ?s1\<lparr>content := mem_put (content ?s1) (pos ?s1) (take n (drop w buf)),
                        pos := pos ?s1 + n, sched := r\<rparr>))"
        using Cons.hyps(1)[of ?s1 w] by simp
      then show ?thesis unfolding e script_transfer.simps if_not_P[OF w0] Again sched_item.case
        by (simp split: prod.splits)
    next
      case (Fail st)
      have st: "lt_OK st" using okx Fail by simp
      then have ne: "st \<noteq> RETRY" by auto
      have "write_fully_loop MemFile s buf w = Some (st, w, s\<lparr>sched := rest\<rparr>)"
        using True e Fail st ne by (subst write_fully_loop.simps) (simp add: mem_write_def)
      then show ?thesis unfolding e script_transfer.simps if_not_P[OF w0] Fail sched_item.case
        by (simp add: mem_put_def)
    next
      case (AtMost k)
      define n where "n = min (min (length buf - w) (Suc k)) (cap s - pos s)"
      define d where "d = take (min (Suc k) (cap s - pos s)) (drop w buf)"
      have ld: "length d = n" unfolding d_def n_def by (simp add: min_def)
      have dn: "d = take n (drop w buf)"
        unfolding d_def n_def by (simp add: min_def)
      let ?s1 = "s\<lparr>content := mem_put (content s) (pos s) d, pos := pos s + n, sched := rest\<rparr>"
      have wr: "mem_write s (drop w buf) = (OK, n, ?s1)"
        using e AtMost ld unfolding d_def by (simp add: mem_write_def)
      show ?thesis
      proof (cases "n = 0")
        case True
        then have "write_fully_loop MemFile s buf w = Some (OK, w, ?s1)"
          using \<open>w < length buf\<close> wr by (subst write_fully_loop.simps) simp
        moreover have "d = []" using ld True by simp
        ultimately show ?thesis
          unfolding e script_transfer.simps if_not_P[OF w0] AtMost sched_item.case
            n_def[symmetric] if_P[OF True] using True by (simp add: mem_put_def)
      next
        case False
        then have step: "write_fully_loop MemFile s buf w = write_fully_loop MemFile ?s1 buf (w + n)"
          using \<open>w < length buf\<close> wr by (subst write_fully_loop.simps) simp
        have "rest = sched ?s1" by simp
        moreover have "\<forall>x\<in>set (sched ?s1). sched_item_ok x" using okr by simp
        ultimately have ih: "write_fully_loop MemFile ?s1 buf (w + n) =
           Some (case script_transfer (sched ?s1) (cap ?s1 - pos ?s1) (length buf - (w + n)) of
                   (st, m, r) \<Rightarrow>
                     (st, (w + n) + m,
                      ?s1\<lparr>content := mem_put (content ?s1) (pos ?s1) (take m (drop (w + n) buf)),
                        pos := pos ?s1 + m, sched := r\<rparr>))"
          by (rule Cons.hyps(1))
        obtain st m r where t: "script_transfer rest (cap s - pos s - n) (length buf - w - n) = (st, m, r)"
          by (cases "script_transfer rest (cap s - pos s - n) (length buf - w - n)") auto
        have "mem_put (mem_put (content s) (pos s) d) (pos s + length d) (take m (drop (w + n) buf))
                = mem_put (content s) (pos s) (d @ take m (drop (w + n) buf))"
          by (rule mem_put_forwards)
        moreover have "d @ take m (drop (w + n) buf) = take (n + m) (drop w buf)"
          unfolding dn by (rule take_take_drop)
        ultimately have put: "mem_put (mem_put (content s) (pos s) d) (pos s + n) (take m (drop (w + n) buf))
                = mem_put (content s) (pos s) (take (n + m) (drop w buf))"
          using ld by simp
        have "write_fully_loop MemFile s buf w
                = Some (st, w + (n + m),
                        s\<lparr>content := mem_put (content s) (pos s) (take (n + m) (drop w buf)),
                          pos := pos s + (n + m), sched := r\<rparr>)"
          unfolding step ih using t put by (simp add: add.assoc)
        then show ?thesis
          unfolding e script_transfer.simps if_not_P[OF w0] AtMost sched_item.case
            n_def[symmetric] if_not_P[OF False] t prod.case .
      qed
    qed
  qed
qed

declare mem_file_same [simp del]

lemma read_fully_loop_step:
  assumes "length b < n" and "File_read F t (n - length b) = (st, d, t')"
  shows "(lt_OK st \<longrightarrow> read_fully_loop F t n b = Some (st, b, t'))
       \<and> (st = RETRY \<longrightarrow> read_fully_loop F t n b = read_fully_loop F t' n b)"
proof (intro conjI impI)
  assume "lt_OK st"
  then have "st \<noteq> RETRY" by auto
  then show "read_fully_loop F t n b = Some (st, b, t')"
    using assms \<open>lt_OK st\<close> by (subst read_fully_loop.simps) simp
next
  assume "st = RETRY"
  then show "read_fully_loop F t n b = read_fully_loop F t' n b"
    using assms by (subst read_fully_loop.simps) simp
qed

lemma write_fully_loop_step:
  assumes "w < length b" and "File_write F t (drop w b) = (st, m, t')"
  shows "(lt_OK st \<longrightarrow> write_fully_loop F t b w = Some (st, w, t'))
       \<and> (st = RETRY \<longrightarrow> write_fully_loop F t b w = write_fully_loop F t' b w)"
proof (intro conjI impI)
  assume "lt_OK st"
  then have "st \<noteq> RETRY" by auto
  then show "write_fully_loop F t b w = Some (st, w, t')"
    using assms \<open>lt_OK st\<close> by (subst write_fully_loop.simps) simp
next
  assume "st = RETRY"
  then show "write_fully_loop F t b w = write_fully_loop F t' b w"
    using assms by (subst write_fully_loop.simps) simp
qed

text \<open>
  Claim C7. \<open>file_read_fully\<close> and \<open>file_write_fully\<close> never return \<open>RETRY\<close>, whatever the
  handle. On the scripted handle, whatever retries, short transfers and failures the script
  holds, both return: the bytes read are the file's bytes at the old position and the
  position advances by their number; a script without failures gives \<open>OK\<close>; with \<open>OK\<close> the
  count is the requested size when that much is available and the available amount
  otherwise; any other status is a failure status of the script. The result is the one of
  the reference \<open>script_transfer\<close>: each \<open>RETRY\<close> of the script is absorbed, and the first
  failure that a call meets is returned, with the bytes moved before it and nothing after
  it. On any handle, a single-shot call that fails makes the loop return that status with
  the count it had before the call, and a single-shot call that answers \<open>RETRY\<close> makes the
  loop issue the same call again, with the same size at the same place of the buffer.
\<close>

theorem transfer_fully:
  assumes "\<forall>x\<in>set (sched s). sched_item_ok x"
  shows "(\<forall>F t n r. file_read_fully F (t::'t) n = Some r \<longrightarrow> fst r \<noteq> RETRY)
       \<and> (\<forall>F t b r. file_write_fully F (t::'t) b = Some r \<longrightarrow> fst r \<noteq> RETRY)
       \<and> (\<exists>st d sch'.
             file_read_fully MemFile s sz
               = Some (st, d, s\<lparr>pos := pos s + length d, sched := sch'\<rparr>)
             \<and> take (length d) (drop (pos s) (content s)) = d
             \<and> length d \<le> sz
             \<and> (st = OK \<longrightarrow> length d = min sz (length (content s) - pos s))
             \<and> (st \<noteq> OK \<longrightarrow> lt_OK st \<and> Fail st \<in> set (sched s))
             \<and> ((\<forall>x\<in>set (sched s). no_fail x) \<longrightarrow> st = OK))
       \<and> (\<exists>st n sch'.
             file_write_fully MemFile s buf
               = Some (st, n, s\<lparr>content := mem_put (content s) (pos s) (take n buf),
                                 pos := pos s + n, sched := sch'\<rparr>)
             \<and> n \<le> length buf
             \<and> (st = OK \<longrightarrow> n = min (length buf) (cap s - pos s))
             \<and> (st \<noteq> OK \<longrightarrow> lt_OK st \<and> Fail st \<in> set (sched s))
             \<and> ((\<forall>x\<in>set (sched s). no_fail x) \<longrightarrow> st = OK))
       \<and> file_read_fully MemFile s sz
           = Some (case script_transfer (sched s) (length (content s) - pos s) sz of
                     (st, n, r) \<Rightarrow>
                       (st, take n (drop (pos s) (content s)), s\<lparr>pos := pos s + n, sched := r\<rparr>))
       \<and> file_write_fully MemFile s buf
           = Some (case script_transfer (sched s) (cap s - pos s) (length buf) of
                     (st, n, r) \<Rightarrow>
                       (st, n, s\<lparr>content := mem_put (content s) (pos s) (take n buf),
                                  pos := pos s + n, sched := r\<rparr>))
       \<and> (\<forall>F t n b st d t'.
             length b < n \<and> File_read F (t::'t) (n - length b) = (st, d, t') \<longrightarrow>
               (lt_OK st \<longrightarrow> read_fully_loop F t n b = Some (st, b, t'))
             \<and> (st = RETRY \<longrightarrow> read_fully_loop F t n b = read_fully_loop F t' n b))
       \<and> (\<forall>F t b w st m t'.
             w < length b \<and> File_write F (t::'t) (drop w b) = (st, m, t') \<longrightarrow>
               (lt_OK st \<longrightarrow> write_fully_loop F t b w = Some (st, w, t'))
             \<and> (st = RETRY \<longrightarrow> write_fully_loop F t b w = write_fully_loop F t' b w))"
proof -
  have 1: "\<forall>F t n r. file_read_fully F (t::'t) n = Some r \<longrightarrow> fst r \<noteq> RETRY"
    unfolding file_read_fully_def by (auto dest: read_fully_loop_status)
  have 2: "\<forall>F t b r. file_write_fully F (t::'t) b = Some r \<longrightarrow> fst r \<noteq> RETRY"
    unfolding file_write_fully_def by (auto dest: write_fully_loop_status)
  from mem_read_fully_loop[OF assms, of sz "[]"] obtain r where
    "file_read_fully MemFile s sz = Some r" and "read_post s sz [] r"
    unfolding file_read_fully_def by blast
  then have 3: "\<exists>st d sch'.
             file_read_fully MemFile s sz
               = Some (st, d, s\<lparr>pos := pos s + length d, sched := sch'\<rparr>)
             \<and> take (length d) (drop (pos s) (content s)) = d
             \<and> length d \<le> sz
             \<and> (st = OK \<longrightarrow> length d = min sz (length (content s) - pos s))
             \<and> (st \<noteq> OK \<longrightarrow> lt_OK st \<and> Fail st \<in> set (sched s))
             \<and> ((\<forall>x\<in>set (sched s). no_fail x) \<longrightarrow> st = OK)"
    unfolding read_post_def by simp blast
  from mem_write_fully_loop[OF assms, of buf 0] obtain r where
    "file_write_fully MemFile s buf = Some r" and "write_post s buf 0 r"
    unfolding file_write_fully_def by blast
  then have 4: "\<exists>st n sch'.
             file_write_fully MemFile s buf
               = Some (st, n, s\<lparr>content := mem_put (content s) (pos s) (take n buf),
                                 pos := pos s + n, sched := sch'\<rparr>)
             \<and> n \<le> length buf
             \<and> (st = OK \<longrightarrow> n = min (length buf) (cap s - pos s))
             \<and> (st \<noteq> OK \<longrightarrow> lt_OK st \<and> Fail st \<in> set (sched s))
             \<and> ((\<forall>x\<in>set (sched s). no_fail x) \<longrightarrow> st = OK)"
    unfolding write_post_def by simp blast
  have 5: "file_read_fully MemFile s sz
           = Some (case script_transfer (sched s) (length (content s) - pos s) sz of
                     (st, n, r) \<Rightarrow>
                       (st, take n (drop (pos s) (content s)), s\<lparr>pos := pos s + n, sched := r\<rparr>))"
    unfolding file_read_fully_def using mem_read_fully_script[OF assms, of sz "[]"] by simp
  have 6: "file_write_fully MemFile s buf
           = Some (case script_transfer (sched s) (cap s - pos s) (length buf) of
                     (st, n, r) \<Rightarrow>
                       (st, n, s\<lparr>content := mem_put (content s) (pos s) (take n buf),
                                  pos := pos s + n, sched := r\<rparr>))"
    unfolding file_write_fully_def using mem_write_fully_script[OF assms, of buf 0] by simp
  have 7: "\<forall>F t n b st d t'.
             length b < n \<and> File_read F (t::'t) (n - length b) = (st, d, t') \<longrightarrow>
               (lt_OK st \<longrightarrow> read_fully_loop F t n b = Some (st, b, t'))
             \<and> (st = RETRY \<longrightarrow> read_fully_loop F t n b = read_fully_loop F t' n b)"
    by (intro allI impI, elim conjE, rule read_fully_loop_step)
  have 8: "\<forall>F t b w st m t'.
             w < length b \<and> File_write F (t::'t) (drop w b) = (st, m, t') \<longrightarrow>
               (lt_OK st \<longrightarrow> write_fully_loop F t b w = Some (st, w, t'))
             \<and> (st = RETRY \<longrightarrow> write_fully_loop F t b w = write_fully_loop F t' b w)"
    by (intro allI impI, elim conjE, rule write_fully_loop_step)
  from 1 2 3 4 5 6 7 8 show ?thesis by (intro conjI)
qed

theorem transfer_fully_witness:
  "list_all sched_item_ok (sched (demo_file [1, 2, 3, 4, 5] [Again, AtMost 1]))
   \<and> (\<exists>sch'. file_read_fully MemFile (demo_file [1, 2, 3, 4, 5] [Again, AtMost 1]) 4
               = Some (OK, [1, 2, 3, 4],
                   (demo_file [1, 2, 3, 4, 5] [Again, AtMost 1])\<lparr>pos := 4, sched := sch'\<rparr>))
   \<and> (\<exists>sch'. file_write_fully MemFile (demo_file [1, 2, 3, 4, 5] [Again, AtMost 1]) [7, 8, 9]
               = Some (OK, 3,
                   (demo_file [1, 2, 3, 4, 5] [Again, AtMost 1])
                     \<lparr>content := [7, 8, 9, 4, 5], pos := 3, sched := sch'\<rparr>))
   \<and> list_all sched_item_ok (sched (demo_file [1, 2, 3, 4, 5] [AtMost 1, Again, Fail FAILED, Again]))
   \<and> file_read_fully MemFile (demo_file [1, 2, 3, 4, 5] [AtMost 1, Again, Fail FAILED, Again]) 4
       = Some (FAILED, [1, 2],
           (demo_file [1, 2, 3, 4, 5] [AtMost 1, Again, Fail FAILED, Again])\<lparr>pos := 2, sched := [Again]\<rparr>)
   \<and> file_write_fully MemFile (demo_file [1, 2, 3, 4, 5] [AtMost 1, Again, Fail FAILED, Again])
         [7, 8, 9]
       = Some (FAILED, 2,
           (demo_file [1, 2, 3, 4, 5] [AtMost 1, Again, Fail FAILED, Again])
             \<lparr>content := [7, 8, 3, 4, 5], pos := 2, sched := [Again]\<rparr>)
   \<and> read_fully_loop MemFile (demo_file [1, 2, 3] [Fail FAILED]) 2 []
       = Some (FAILED, [], demo_file [1, 2, 3] [])
   \<and> write_fully_loop MemFile (demo_file [1, 2, 3] [Again]) [7, 8] 0
       = write_fully_loop MemFile (demo_file [1, 2, 3] []) [7, 8] 0"
proof -
  let ?s = "demo_file [1, 2, 3, 4, 5] [Again, AtMost 1]"
  let ?t = "demo_file [1, 2, 3, 4, 5] [AtMost 1, Again, Fail FAILED, Again]"
  have h: "\<forall>x\<in>set (sched ?s). sched_item_ok x" by (simp add: demo_file_def)
  have nf: "\<forall>x\<in>set (sched ?s). no_fail x" by (simp add: demo_file_def)
  note S = transfer_fully[OF h, of 4 "[7, 8, 9]"]
  from S[THEN conjunct2, THEN conjunct2, THEN conjunct1] nf obtain d sch1 where
    r: "file_read_fully MemFile ?s 4 = Some (OK, d, ?s\<lparr>pos := pos ?s + length d, sched := sch1\<rparr>)"
    and d: "take (length d) (drop (pos ?s) (content ?s)) = d"
    and ld: "length d = min 4 (length (content ?s) - pos ?s)"
    by blast
  from S[THEN conjunct2, THEN conjunct2, THEN conjunct2, THEN conjunct1] nf obtain n sch2 where
    w: "file_write_fully MemFile ?s [7, 8, 9]
              = Some (OK, n, ?s\<lparr>content := mem_put (content ?s) (pos ?s) (take n [7, 8, 9]),
                                 pos := pos ?s + n, sched := sch2\<rparr>)"
    and n: "n = min (length [7, 8, 9::byte]) (cap ?s - pos ?s)"
    by blast
  have "length d = 4" using ld by (simp add: demo_file_def)
  then have "d = [1, 2, 3, 4]" using d by (simp add: demo_file_def)
  then have 1: "\<exists>sch'. file_read_fully MemFile ?s 4
               = Some (OK, [1, 2, 3, 4], ?s\<lparr>pos := 4, sched := sch'\<rparr>)"
    using r by (auto simp: demo_file_def)
  have "n = 3" using n by (simp add: demo_file_def)
  then have 2: "\<exists>sch'. file_write_fully MemFile ?s [7, 8, 9]
               = Some (OK, 3, ?s\<lparr>content := [7, 8, 9, 4, 5], pos := 3, sched := sch'\<rparr>)"
    using w by (auto simp: demo_file_def mem_put_def)
  have 0: "list_all sched_item_ok (sched ?s)" by (simp add: demo_file_def)
  have g: "\<forall>x\<in>set (sched ?t). sched_item_ok x" by (simp add: demo_file_def)
  have 3: "list_all sched_item_ok (sched ?t)" by (simp add: demo_file_def)
  note T = transfer_fully[OF g, of 4 "[7, 8, 9]"]
  have 4: "file_read_fully MemFile ?t 4
       = Some (FAILED, [1, 2], ?t\<lparr>pos := 2, sched := [Again]\<rparr>)"
    using T[THEN conjunct2, THEN conjunct2, THEN conjunct2, THEN conjunct2, THEN conjunct1]
    by (simp add: demo_file_def)
  have 5: "file_write_fully MemFile ?t [7, 8, 9]
       = Some (FAILED, 2, ?t\<lparr>content := [7, 8, 3, 4, 5], pos := 2, sched := [Again]\<rparr>)"
    using T[THEN conjunct2, THEN conjunct2, THEN conjunct2, THEN conjunct2, THEN conjunct2,
            THEN conjunct1]
    by (simp add: demo_file_def mem_put_def)
  note R = T[THEN conjunct2, THEN conjunct2, THEN conjunct2, THEN conjunct2, THEN conjunct2,
            THEN conjunct2, THEN conjunct1, rule_format]
  note W = T[THEN conjunct2, THEN conjunct2, THEN conjunct2, THEN conjunct2, THEN conjunct2,
            THEN conjunct2, THEN conjunct2, rule_format]
  have rf: "length ([] :: byte list) < 2
      \<and> File_read MemFile (demo_file [1, 2, 3] [Fail FAILED]) (2 - length ([] :: byte list))
          = (FAILED, [], demo_file [1, 2, 3] [])"
    by (simp add: mem_read_def demo_file_def)
  have wr: "0 < length [7, 8 :: byte]
      \<and> File_write MemFile (demo_file [1, 2, 3] [Again]) (drop 0 [7, 8])
          = (RETRY, 0, demo_file [1, 2, 3] [])"
    by (simp add: mem_write_def demo_file_def)
  have 6: "read_fully_loop MemFile (demo_file [1, 2, 3] [Fail FAILED]) 2 []
     = Some (FAILED, [], demo_file [1, 2, 3] [])"
    using R[OF rf, THEN conjunct1] by simp
  have 7: "write_fully_loop MemFile (demo_file [1, 2, 3] [Again]) [7, 8] 0
     = write_fully_loop MemFile (demo_file [1, 2, 3] []) [7, 8] 0"
    using W[OF wr, THEN conjunct2] by simp
  from 0 1 2 3 4 5 6 7 show ?thesis by (intro conjI)
qed

section \<open>Bounds on the transfer counts\<close>

lemma File_ok_read:
  "File_ok F \<Longrightarrow> File_read F s n = (ret, data, s') \<Longrightarrow> ret \<noteq> RETRY \<Longrightarrow> \<not> lt_OK ret
     \<Longrightarrow> length data \<le> n"
  unfolding File_ok_def by blast

lemma File_ok_write:
  "File_ok F \<Longrightarrow> File_write F s buf = (ret, n, s') \<Longrightarrow> ret \<noteq> RETRY \<Longrightarrow> \<not> lt_OK ret
     \<Longrightarrow> n \<le> length buf"
  unfolding File_ok_def by blast

lemma read_fully_loop_bound:
  assumes "read_fully_loop F s sz buf = Some r"
  shows "File_ok F \<longrightarrow> length buf \<le> sz \<longrightarrow> length (fst (snd r)) \<le> sz"
proof (rule read_fully_loop.raw_induct
    [where P = "\<lambda>F s sz buf r. File_ok F \<longrightarrow> length buf \<le> sz \<longrightarrow> length (fst (snd r)) \<le> sz",
     OF _ assms])
  fix f F s sz buf r
  assume IH: "\<And>F s sz buf r. f F s sz buf = Some r \<Longrightarrow>
                File_ok F \<longrightarrow> length buf \<le> sz \<longrightarrow> length (fst (snd r)) \<le> sz"
    and step: "(if length buf < sz then
        (case File_read F s (sz - length buf) of (ret, data, s') \<Rightarrow>
           if ret = RETRY then f F s' sz buf
           else if lt_OK ret then Some (ret, buf, s')
           else if length data = 0 then Some (OK, buf, s')
           else f F s' sz (buf @ data))
      else Some (OK, buf, s)) = Some r"
  show "File_ok F \<longrightarrow> length buf \<le> sz \<longrightarrow> length (fst (snd r)) \<le> sz"
  proof (intro impI)
    assume ok: "File_ok F" and le: "length buf \<le> sz"
    show "length (fst (snd r)) \<le> sz"
    proof (cases "length buf < sz")
      case False
      then show ?thesis using step le by auto
    next
      case True
      obtain ret data s' where rd: "File_read F s (sz - length buf) = (ret, data, s')"
        by (cases "File_read F s (sz - length buf)") auto
      show ?thesis
      proof (cases "ret = RETRY")
        case True
        then have "f F s' sz buf = Some r" using step rd \<open>length buf < sz\<close> by simp
        then show ?thesis using IH ok le by blast
      next
        case False
        show ?thesis
        proof (cases "lt_OK ret \<or> length data = 0")
          case True
          then show ?thesis using step rd \<open>length buf < sz\<close> False le by (auto split: if_splits)
        next
          case F2: False
          then have "f F s' sz (buf @ data) = Some r"
            using step rd \<open>length buf < sz\<close> False by simp
          moreover have "length data \<le> sz - length buf"
            using File_ok_read[OF ok rd False] F2 by simp
          then have "length (buf @ data) \<le> sz" using le by simp
          ultimately show ?thesis using IH ok by blast
        qed
      qed
    qed
  qed
qed


lemma write_fully_loop_bound:
  assumes "write_fully_loop F s buf w = Some r"
  shows "File_ok F \<longrightarrow> w \<le> length buf \<longrightarrow> fst (snd r) \<le> length buf"
proof (rule write_fully_loop.raw_induct
    [where P = "\<lambda>F s buf w r. File_ok F \<longrightarrow> w \<le> length buf \<longrightarrow> fst (snd r) \<le> length buf",
     OF _ assms])
  fix f F s buf w r
  assume IH: "\<And>F s buf w r. f F s buf w = Some r \<Longrightarrow>
                File_ok F \<longrightarrow> w \<le> length buf \<longrightarrow> fst (snd r) \<le> length buf"
    and step: "(if w < length buf then
        (case File_write F s (drop w buf) of (ret, n, s') \<Rightarrow>
           if ret = RETRY then f F s' buf w
           else if lt_OK ret then Some (ret, w, s')
           else if n = 0 then Some (OK, w, s')
           else f F s' buf (w + n))
      else Some (OK, w, s)) = Some r"
  show "File_ok F \<longrightarrow> w \<le> length buf \<longrightarrow> fst (snd r) \<le> length buf"
  proof (intro impI)
    assume ok: "File_ok F" and le: "w \<le> length buf"
    show "fst (snd r) \<le> length buf"
    proof (cases "w < length buf")
      case False
      then show ?thesis using step le by auto
    next
      case True
      obtain ret n s' where wr: "File_write F s (drop w buf) = (ret, n, s')"
        by (cases "File_write F s (drop w buf)") auto
      show ?thesis
      proof (cases "ret = RETRY")
        case True
        then have "f F s' buf w = Some r" using step wr \<open>w < length buf\<close> by simp
        then show ?thesis using IH ok le by blast
      next
        case False
        show ?thesis
        proof (cases "lt_OK ret \<or> n = 0")
          case True
          then show ?thesis using step wr \<open>w < length buf\<close> False le by (auto split: if_splits)
        next
          case F2: False
          then have "f F s' buf (w + n) = Some r"
            using step wr \<open>w < length buf\<close> False by simp
          moreover have "n \<le> length (drop w buf)"
            using File_ok_write[OF ok wr False] F2 by simp
          then have "w + n \<le> length buf" using le by simp
          ultimately show ?thesis using IH ok by blast
        qed
      qed
    qed
  qed
qed

lemma file_read_fully_bound:
  "File_ok F \<Longrightarrow> file_read_fully F s sz = Some (st, d, s') \<Longrightarrow> length d \<le> sz"
  using read_fully_loop_bound[of F s sz "[]" "(st, d, s')"] by (simp add: file_read_fully_def)

lemma file_write_fully_bound:
  "File_ok F \<Longrightarrow> file_write_fully F s buf = Some (st, n, s') \<Longrightarrow> n \<le> length buf"
  using write_fully_loop_bound[of F s buf 0 "(st, n, s')"] by (simp add: file_write_fully_def)


lemma move_forwards_bound:
  assumes "move_forwards bufsz F src dest sz m s = Some r"
  shows "File_ok F \<longrightarrow> m \<le> sz \<longrightarrow> fst (snd r) \<le> sz"
proof (rule move_forwards.raw_induct
    [where P = "\<lambda>bufsz F src dest sz m s r. File_ok F \<longrightarrow> m \<le> sz \<longrightarrow> fst (snd r) \<le> sz",
     OF _ assms])
  fix f bufsz F src dest sz m s r
  assume IH: "\<And>bufsz F src dest sz m s r. f bufsz F src dest sz m s = Some r \<Longrightarrow>
                File_ok F \<longrightarrow> m \<le> sz \<longrightarrow> fst (snd r) \<le> sz"
    and step: "(if m < sz then
        (case File_seek F s (src + m) of (ret, s1) \<Rightarrow>
           if ret \<noteq> OK then Some (ret, m, s1)
           else
             (case file_read_fully F s1 (min bufsz (sz - m)) of
                None \<Rightarrow> None
              | Some (ret, data, s2) \<Rightarrow>
                  if ret \<noteq> OK then Some (ret, m, s2)
                  else if length data = 0 then Some (OK, m, s2)
                  else
                    (case File_seek F s2 (dest + m) of (ret, s3) \<Rightarrow>
                       if ret \<noteq> OK then Some (ret, m, s3)
                       else
                         (case file_write_fully F s3 data of
                            None \<Rightarrow> None
                          | Some (ret, n_written, s4) \<Rightarrow>
                              if ret \<noteq> OK then Some (ret, m, s4)
                              else if n_written < length data
                              then Some (OK, m + n_written, s4)
                              else f bufsz F src dest sz (m + n_written) s4))))
      else Some (OK, m, s)) = Some r"
  show "File_ok F \<longrightarrow> m \<le> sz \<longrightarrow> fst (snd r) \<le> sz"
  proof (intro impI)
    assume ok: "File_ok F" and le: "m \<le> sz"
    have "fst (snd r) \<le> sz \<or> (\<exists>m' s4. m' \<le> sz \<and> f bufsz F src dest sz m' s4 = Some r)"
    proof (cases "m < sz")
      case False
      then show ?thesis using step le by auto
    next
      case True
      obtain ret1 s1 where sk1: "File_seek F s (src + m) = (ret1, s1)"
        by (cases "File_seek F s (src + m)") auto
      show ?thesis
      proof (cases "ret1 = OK")
        case False
        then show ?thesis using step True sk1 le by auto
      next
        case r1: True
        show ?thesis
        proof (cases "file_read_fully F s1 (min bufsz (sz - m))")
          case None
          then show ?thesis using step True sk1 r1 by simp
        next
          case (Some a)
          obtain ret2 data s2 where a: "a = (ret2, data, s2)" by (cases a) auto
          have dl: "length data \<le> sz - m"
            using file_read_fully_bound[OF ok Some[unfolded a]] by simp
          show ?thesis
          proof (cases "ret2 = OK \<and> length data \<noteq> 0")
            case False
            then show ?thesis using step True sk1 r1 Some a le by (auto split: if_splits)
          next
            case r2: True
            obtain ret3 s3 where sk2: "File_seek F s2 (dest + m) = (ret3, s3)"
              by (cases "File_seek F s2 (dest + m)") auto
            show ?thesis
            proof (cases "ret3 = OK")
              case False
              then show ?thesis using step True sk1 r1 Some a r2 sk2 le by auto
            next
              case r3: True
              show ?thesis
              proof (cases "file_write_fully F s3 data")
                case None
                then show ?thesis using step True sk1 r1 Some a r2 sk2 r3 by simp
              next
                case (Some b)
                obtain ret4 nw s4 where b: "b = (ret4, nw, s4)" by (cases b) auto
                have wl: "nw \<le> length data"
                  using file_write_fully_bound[OF ok Some[unfolded b]] .
                have mw: "m + nw \<le> sz" using wl dl True by linarith
                show ?thesis
                proof (cases "ret4 = OK \<and> \<not> nw < length data")
                  case False
                  then show ?thesis
                    using step True sk1 r1 \<open>file_read_fully F s1 (min bufsz (sz - m)) = Some a\<close>
                      a r2 sk2 r3 Some b le mw by (auto split: if_splits)
                next
                  case True
                  then have "f bufsz F src dest sz (m + nw) s4 = Some r"
                    using step \<open>m < sz\<close> sk1 r1 \<open>file_read_fully F s1 (min bufsz (sz - m)) = Some a\<close>
                      a r2 sk2 r3 Some b by simp
                  then show ?thesis using mw by blast
                qed
              qed
            qed
          qed
        qed
      qed
    qed
    then show "fst (snd r) \<le> sz" using IH ok by blast
  qed
qed


lemma move_backwards_bound:
  assumes "move_backwards bufsz F src dest sz m s = Some r"
  shows "File_ok F \<longrightarrow> m \<le> sz \<longrightarrow> fst (snd r) \<le> sz"
proof (rule move_backwards.raw_induct
    [where P = "\<lambda>bufsz F src dest sz m s r. File_ok F \<longrightarrow> m \<le> sz \<longrightarrow> fst (snd r) \<le> sz",
     OF _ assms])
  fix f bufsz F src dest sz m s r
  assume IH: "\<And>bufsz F src dest sz m s r. f bufsz F src dest sz m s = Some r \<Longrightarrow>
                File_ok F \<longrightarrow> m \<le> sz \<longrightarrow> fst (snd r) \<le> sz"
    and step: "(if m < sz then
        (case File_seek F s (src + sz - m - min bufsz (sz - m)) of
           (ret, s1) \<Rightarrow>
           if ret \<noteq> OK then Some (ret, m, s1)
           else
             (case file_read_fully F s1 (min bufsz (sz - m)) of
                None \<Rightarrow> None
              | Some (ret, data, s2) \<Rightarrow>
                  if ret \<noteq> OK then Some (ret, m, s2)
                  else if length data = 0 then Some (OK, m, s2)
                  else
                    (case File_seek F s2 (dest + sz - m - length data) of
                       (ret, s3) \<Rightarrow>
                       if ret \<noteq> OK then Some (ret, m, s3)
                       else
                         (case file_write_fully F s3 data of
                            None \<Rightarrow> None
                          | Some (ret, n_written, s4) \<Rightarrow>
                              if ret \<noteq> OK then Some (ret, m, s4)
                              else f bufsz F src dest
                                     (if n_written < length data
                                      then sz - (length data - n_written) else sz)
                                     (m + n_written) s4))))
      else Some (OK, m, s)) = Some r"
  show "File_ok F \<longrightarrow> m \<le> sz \<longrightarrow> fst (snd r) \<le> sz"
  proof (intro impI)
    assume ok: "File_ok F" and le: "m \<le> sz"
    have "fst (snd r) \<le> sz
        \<or> (\<exists>sz' m' s4. sz' \<le> sz \<and> m' \<le> sz' \<and> f bufsz F src dest sz' m' s4 = Some r)"
    proof (cases "m < sz")
      case False
      then show ?thesis using step le by auto
    next
      case True
      obtain ret1 s1 where
        sk1: "File_seek F s (src + sz - m - min bufsz (sz - m)) = (ret1, s1)"
        by (cases "File_seek F s (src + sz - m - min bufsz (sz - m))") auto
      show ?thesis
      proof (cases "ret1 = OK")
        case False
        then show ?thesis using step True sk1 le by auto
      next
        case r1: True
        show ?thesis
        proof (cases "file_read_fully F s1 (min bufsz (sz - m))")
          case None
          then show ?thesis using step True sk1 r1 by simp
        next
          case (Some a)
          obtain ret2 data s2 where a: "a = (ret2, data, s2)" by (cases a) auto
          have dl: "length data \<le> sz - m"
            using file_read_fully_bound[OF ok Some[unfolded a]] by simp
          show ?thesis
          proof (cases "ret2 = OK \<and> length data \<noteq> 0")
            case False
            then show ?thesis using step True sk1 r1 Some a le by (auto split: if_splits)
          next
            case r2: True
            obtain ret3 s3 where sk2: "File_seek F s2 (dest + sz - m - length data) = (ret3, s3)"
              by (cases "File_seek F s2 (dest + sz - m - length data)") auto
            show ?thesis
            proof (cases "ret3 = OK")
              case False
              then show ?thesis using step True sk1 r1 Some a r2 sk2 le by auto
            next
              case r3: True
              show ?thesis
              proof (cases "file_write_fully F s3 data")
                case None
                then show ?thesis using step True sk1 r1 Some a r2 sk2 r3 by simp
              next
                case (Some b)
                obtain ret4 nw s4 where b: "b = (ret4, nw, s4)" by (cases b) auto
                have wl: "nw \<le> length data"
                  using file_write_fully_bound[OF ok Some[unfolded b]] .
                let ?sz' = "if nw < length data then sz - (length data - nw) else sz"
                have s1: "?sz' \<le> sz" by auto
                have s2: "m + nw \<le> ?sz'" using wl dl True by (simp split: if_splits) linarith
                show ?thesis
                proof (cases "ret4 = OK")
                  case False
                  then show ?thesis
                    using step True sk1 r1 \<open>file_read_fully F s1 (min bufsz (sz - m)) = Some a\<close>
                      a r2 sk2 r3 Some b le by (auto split: if_splits)
                next
                  case True
                  then have "f bufsz F src dest ?sz' (m + nw) s4 = Some r"
                    using step \<open>m < sz\<close> sk1 r1 \<open>file_read_fully F s1 (min bufsz (sz - m)) = Some a\<close>
                      a r2 sk2 r3 Some b by simp
                  then show ?thesis using s1 s2 by blast
                qed
              qed
            qed
          qed
        qed
      qed
    qed
    then show "fst (snd r) \<le> sz" using IH ok by (meson order_trans)
  qed
qed

lemma mem_read_length:
  "mem_read s n = (ret, data, s') \<Longrightarrow> length data \<le> n"
  by (auto simp: mem_read_def split: list.splits sched_item.splits)

lemma mem_write_length:
  "mem_write s buf = (ret, n, s') \<Longrightarrow> n \<le> length buf"
  by (auto simp: mem_write_def split: list.splits sched_item.splits)

lemma MemFile_ok: "File_ok MemFile"
  unfolding File_ok_def using mem_read_length mem_write_length by auto

lemmas mem_eval =
  file_read_fully_def read_fully_loop.simps file_write_fully_def write_fully_loop.simps
  mem_read_def mem_write_def mem_seek_def mem_set_error_def mem_put_def demo_file_def
  UINT64_MAX_def

text \<open>
  Claim C10, as amended. For a handle whose single-shot calls report no more bytes than they
  were asked to move, the count that \<open>file_read_fully\<close> and \<open>file_write_fully\<close> report never
  exceeds the requested size, on success and on failure; the same holds for the
  \<open>size_moved\<close> of \<open>file_move\<close> on every return that writes it, that is on every return but
  the rejection of an overflowing \<open>src + size\<close> or \<open>dest + size\<close>, which leaves the caller's
  variable as it was.
\<close>

theorem transfer_counts_bounded:
  assumes "File_ok F"
  shows "(file_read_fully F s sz = Some (st1, d, s1) \<longrightarrow> length d \<le> sz)
       \<and> (file_write_fully F s buf = Some (st2, n, s2) \<longrightarrow> n \<le> length buf)
       \<and> (file_move F s src dest sz size_moved0 = Some (st3, size_moved, s3)
            \<and> (src = dest \<or> sz = 0 \<or> (src \<le> UINT64_MAX - sz \<and> dest \<le> UINT64_MAX - sz))
            \<longrightarrow> size_moved \<le> sz)"
proof (intro conjI impI)
  assume "file_read_fully F s sz = Some (st1, d, s1)"
  then show "length d \<le> sz" using assms by (rule file_read_fully_bound[rotated])
next
  assume "file_write_fully F s buf = Some (st2, n, s2)"
  then show "n \<le> length buf" using assms by (rule file_write_fully_bound[rotated])
next
  assume a: "file_move F s src dest sz size_moved0 = Some (st3, size_moved, s3)
            \<and> (src = dest \<or> sz = 0 \<or> (src \<le> UINT64_MAX - sz \<and> dest \<le> UINT64_MAX - sz))"
  show "size_moved \<le> sz"
  proof (cases "src = dest \<or> sz = 0")
    case True
    then show ?thesis using a by (auto simp: file_move_def file_move_chunked_def)
  next
    case False
    then have nov: "\<not> (src > UINT64_MAX - sz \<or> dest > UINT64_MAX - sz)" using a by auto
    show ?thesis
    proof (cases "dest < src")
      case True
      then have "move_forwards 10240 F src dest sz 0 s = Some (st3, size_moved, s3)"
        using a False nov by (simp add: file_move_def file_move_chunked_def)
      from move_forwards_bound[OF this] assms show ?thesis by simp
    next
      case F2: False
      then have "move_backwards 10240 F src dest sz 0 s = Some (st3, size_moved, s3)"
        using a False nov by (simp add: file_move_def file_move_chunked_def)
      from move_backwards_bound[OF this] assms show ?thesis by simp
    qed
  qed
qed


theorem transfer_counts_bounded_witness:
  "File_ok MemFile
   \<and> file_read_fully MemFile (demo_file [1, 2, 3, 4, 5] [AtMost 1]) 4
       = Some (OK, [1, 2, 3, 4], (demo_file [1, 2, 3, 4, 5] [])\<lparr>pos := 4\<rparr>)
   \<and> length [1, 2, 3, 4 :: byte] \<le> 4
   \<and> file_write_fully MemFile (demo_file [1, 2, 3, 4, 5] [Again]) [7, 8, 9]
       = Some (OK, 3, (demo_file [7, 8, 9, 4, 5] [])\<lparr>pos := 3\<rparr>)
   \<and> (3 :: nat) \<le> length [7, 8, 9 :: byte]
   \<and> file_move MemFile ((demo_file [1, 2, 3, 4, 5, 6, 7, 8, 9, 10] [])\<lparr>cap := 10\<rparr>) 0 4 8 0
       = Some (OK, 6, (demo_file [1, 2, 3, 4, 1, 2, 3, 4, 5, 6] [])\<lparr>pos := 10, cap := 10\<rparr>)
   \<and> (6 :: nat) \<le> 8"
proof -
  have r: "file_read_fully MemFile (demo_file [1, 2, 3, 4, 5] [AtMost 1]) 4
       = Some (OK, [1, 2, 3, 4], (demo_file [1, 2, 3, 4, 5] [])\<lparr>pos := 4\<rparr>)"
    by (simp add: mem_eval)
  have w: "file_write_fully MemFile (demo_file [1, 2, 3, 4, 5] [Again]) [7, 8, 9]
       = Some (OK, 3, (demo_file [7, 8, 9, 4, 5] [])\<lparr>pos := 3\<rparr>)"
    by (simp add: mem_eval)
  have m: "file_move MemFile ((demo_file [1, 2, 3, 4, 5, 6, 7, 8, 9, 10] [])\<lparr>cap := 10\<rparr>) 0 4 8 0
       = Some (OK, 6, (demo_file [1, 2, 3, 4, 1, 2, 3, 4, 5, 6] [])\<lparr>pos := 10, cap := 10\<rparr>)"
    by (simp add: file_move_def file_move_chunked_def move_backwards.simps mem_eval)
  have c1: "length [1, 2, 3, 4 :: byte] \<le> 4"
    using transfer_counts_bounded[OF MemFile_ok, THEN conjunct1, THEN mp, OF r] .
  have c2: "(3 :: nat) \<le> length [7, 8, 9 :: byte]"
    using transfer_counts_bounded[OF MemFile_ok, THEN conjunct2, THEN conjunct1, THEN mp, OF w] .
  have "(0 :: nat) = 4 \<or> (8 :: nat) = 0
      \<or> ((0 :: nat) \<le> UINT64_MAX - 8 \<and> (4 :: nat) \<le> UINT64_MAX - 8)"
    by (simp add: UINT64_MAX_def)
  with m have c3: "(6 :: nat) \<le> 8"
    using transfer_counts_bounded[OF MemFile_ok, THEN conjunct2, THEN conjunct2, THEN mp,
      of "(demo_file [1, 2, 3, 4, 5, 6, 7, 8, 9, 10] [])\<lparr>cap := 10\<rparr>" 0 4 8 0 OK 6
         "(demo_file [1, 2, 3, 4, 1, 2, 3, 4, 5, 6] [])\<lparr>pos := 10, cap := 10\<rparr>"]
    by blast
  show ?thesis using MemFile_ok r w m c1 c2 c3 by blast
qed

text \<open>
  Claim C10 as stated fails on the rejection path: \<open>file_move\<close> returns \<open>FAILED\<close> before it
  assigns \<open>*size_moved\<close>, so a caller whose variable held 100 still reads 100 after asking
  for 5 bytes.
\<close>

theorem file_move_overflow_counterexample:
  "file_move MemFile (demo_file [1, 2, 3] []) 18446744073709551615 0 5 100
     = Some (FAILED, 100, (demo_file [1, 2, 3] [])\<lparr>last_error := Some INVALID_ARGUMENT\<rparr>)
   \<and> \<not> (100 :: nat) \<le> 5"
  by (simp add: file_move_def file_move_chunked_def mem_eval)

section \<open>The discard loop\<close>

text \<open>
  Claim C2 fails on the code. Every pass of \<open>file_read_discard\<close> asks the handle for
  \<open>min size sizeof(buf)\<close> bytes instead of the bytes still to discard, so a request for
  10241 bytes on a handle that holds 20480 bytes reads 10240 bytes twice: the call returns
  \<open>OK\<close> with \<open>bytes_discarded = 20480\<close> and has consumed 20480 bytes, where the claim
  promises exactly 10241 and never more.
\<close>

theorem file_read_discard_overshoots:
  "file_read_discard MemFile (demo_file (replicate 20480 0) []) 10241
     = Some (OK, 20480, (demo_file (replicate 20480 0) [])\<lparr>pos := 20480\<rparr>)"
  by (simp add: file_read_discard_def read_discard_loop.simps mem_read_def demo_file_def)

section \<open>Properties of the pattern search\<close>


lemma mb_memmem_bound:
  "mb_memmem hay needle = Some i \<Longrightarrow> i + length needle \<le> length hay"
proof (induction hay arbitrary: i)
  case Nil
  then show ?case by (simp split: if_splits)
next
  case (Cons h hs)
  show ?case
  proof (cases "take (length needle) (h # hs) = needle")
    case True
    then have "i = 0" using Cons.prems by simp
    moreover have "length needle \<le> length (h # hs)"
      using True by (metis length_take min.cobounded1)
    ultimately show ?thesis by simp
  next
    case False
    then obtain j where "mb_memmem hs needle = Some j" "i = Suc j"
      using Cons.prems by auto
    then show ?thesis using Cons.IH by auto
  qed
qed

lemma gapped_snoc:
  "gapped p xs \<Longrightarrow> \<forall>x\<in>set xs. x + p \<le> y \<Longrightarrow> gapped p (xs @ [y])"
  by (induction p xs rule: gapped.induct) auto

lemma trace_inv_mono: "trace_inv p e c tr \<Longrightarrow> c \<le> c' \<Longrightarrow> trace_inv p e c' tr"
  unfolding trace_inv_def list_all_iff by fastforce

lemma trace_inv_final: "trace_inv p e c tr \<Longrightarrow> trace_final p e tr st"
  unfolding trace_inv_def trace_final_def list_all_iff
  by (auto dest: in_set_butlastD simp: last_in_set)

lemma trace_inv_snoc:
  assumes "trace_inv p e c tr" and "c \<le> off" and "0 \<le> e \<longrightarrow> int (off + p) \<le> e"
    and "ret \<noteq> WARN" and "\<not> lt_OK ret"
  shows "trace_inv p e (off + p) (tr @ [(off, ret)])"
proof -
  have "\<forall>x\<in>set (map fst tr). x + p \<le> off"
    using assms(1,2) unfolding trace_inv_def list_all_iff by fastforce
  then have "gapped p (map fst tr @ [off])"
    using assms(1) gapped_snoc unfolding trace_inv_def by blast
  then show ?thesis
    using assms unfolding trace_inv_def list_all_iff by fastforce
qed

lemma trace_final_snoc:
  assumes "trace_inv p e c tr" and "c \<le> off" and "0 \<le> e \<longrightarrow> int (off + p) \<le> e"
    and "ret = WARN \<longrightarrow> st = OK" and "lt_OK ret \<and> ret \<noteq> WARN \<longrightarrow> st = ret"
  shows "trace_final p e (tr @ [(off, ret)]) st"
proof -
  have "\<forall>x\<in>set (map fst tr). x + p \<le> off"
    using assms(1,2) unfolding trace_inv_def list_all_iff by fastforce
  then have "gapped p (map fst tr @ [off])"
    using assms(1) gapped_snoc unfolding trace_inv_def by blast
  then show ?thesis
    using assms unfolding trace_inv_def trace_final_def list_all_iff by fastforce
qed

lemma search_matches_trace:
  assumes "search_matches buf offset e pattern rcb match mr mm s ut = Some ex"
  shows "\<forall>cb. rcb = traced cb \<longrightarrow> pattern \<noteq> [] \<longrightarrow> match + mr \<le> length buf \<longrightarrow>
           trace_inv (length pattern) e (offset + match) (snd ut) \<longrightarrow>
           inner_post (length pattern) e offset (length buf) ex"
proof (rule search_matches.raw_induct
    [where P = "\<lambda>buf offset e pattern rcb match mr mm s ut ex.
        \<forall>cb. rcb = traced cb \<longrightarrow> pattern \<noteq> [] \<longrightarrow> match + mr \<le> length buf \<longrightarrow>
           trace_inv (length pattern) e (offset + match) (snd ut) \<longrightarrow>
           inner_post (length pattern) e offset (length buf) ex",
     OF _ assms])
  fix f :: "byte list \<Rightarrow> nat \<Rightarrow> int \<Rightarrow> byte list \<Rightarrow>
            ('a, 'b \<times> (nat \<times> FileStatus) list) FileSearchResultCallback \<Rightarrow>
            nat \<Rightarrow> nat \<Rightarrow> int \<Rightarrow> 'a \<Rightarrow> 'b \<times> (nat \<times> FileStatus) list \<Rightarrow>
            ('a, 'b \<times> (nat \<times> FileStatus) list) search_exit option"
  fix buf offset e pattern rcb match mr mm s ut ex
  assume IH: "\<And>buf offset e pattern rcb match mr mm s ut ex.
      f buf offset e pattern rcb match mr mm s ut = Some ex \<Longrightarrow>
        \<forall>cb. rcb = traced cb \<longrightarrow> pattern \<noteq> [] \<longrightarrow> match + mr \<le> length buf \<longrightarrow>
           trace_inv (length pattern) e (offset + match) (snd ut) \<longrightarrow>
           inner_post (length pattern) e offset (length buf) ex"
    and step: "(case mb_memmem (take mr (drop match buf)) pattern of
        None \<Rightarrow> Some (Refill mr mm s ut)
      | Some i \<Rightarrow>
          if e \<ge> 0 \<and> int (offset + (match + i) + length pattern) > e
          then Some (Done OK s ut)
          else
            (case rcb s ut (offset + (match + i)) of (ret, s', u') \<Rightarrow>
               if ret = WARN then Some (Done OK s' u')
               else if lt_OK ret then Some (Done ret s' u')
               else if mm > 0 \<and> mm - 1 = 0 then Some (Done ret s' u')
               else if mr \<ge> length pattern
               then f buf offset e pattern rcb
                      (match + i + length pattern)
                      (length buf - (match + i + length pattern))
                      (if mm > 0 then mm - 1 else mm) s' u'
               else Some (Refill mr
                      (if mm > 0 then mm - 1 else mm) s' u'))) = Some ex"
  show "\<forall>cb. rcb = traced cb \<longrightarrow> pattern \<noteq> [] \<longrightarrow> match + mr \<le> length buf \<longrightarrow>
           trace_inv (length pattern) e (offset + match) (snd ut) \<longrightarrow>
           inner_post (length pattern) e offset (length buf) ex"
  proof (intro allI impI)
    fix cb
    assume rcb: "rcb = traced cb" and pne: "pattern \<noteq> []"
      and bound: "match + mr \<le> length buf"
      and inv: "trace_inv (length pattern) e (offset + match) (snd ut)"
    let ?p = "length pattern"
    show "inner_post ?p e offset (length buf) ex"
    proof (cases "mb_memmem (take mr (drop match buf)) pattern")
      case None
      then have ex: "ex = Refill mr mm s ut" using step by simp
      have "offset + match \<le> offset + (length buf - mr)" using bound by simp
      then have "trace_inv ?p e (offset + (length buf - mr)) (snd ut)"
        using inv trace_inv_mono by blast
      then show ?thesis using ex bound by (simp add: inner_post_def)
    next
      case (Some i)
      have ib: "i + ?p \<le> mr" "match + i + ?p \<le> length buf"
        using mb_memmem_bound[OF Some] bound by simp_all
      let ?off = "offset + (match + i)"
      show ?thesis
      proof (cases "e \<ge> 0 \<and> int (?off + ?p) > e")
        case True
        then have "ex = Done OK s ut" using step Some by simp
        then show ?thesis using inv trace_inv_final by (simp add: inner_post_def)
      next
        case False
        then have inside: "0 \<le> e \<longrightarrow> int (?off + ?p) \<le> e" by linarith
        obtain ret s' u' where cbr: "cb s (fst ut) ?off = (ret, s', u')"
          by (cases "cb s (fst ut) ?off") auto
        let ?tr' = "snd ut @ [(?off, ret)]"
        have call: "rcb s ut ?off = (ret, s', (u', ?tr'))"
          using rcb cbr by (simp add: traced_def)
        have cle: "offset + match \<le> ?off" by simp
        note s1 = step[unfolded Some option.case if_not_P[OF False] call prod.case]
        show ?thesis
        proof (cases "ret = WARN \<or> lt_OK ret")
          case True
          then have "ex = Done (if ret = WARN then OK else ret) s' (u', ?tr')"
            using s1 by (auto split: if_splits)
          moreover have "trace_final ?p e ?tr' (if ret = WARN then OK else ret)"
            using trace_final_snoc[OF inv cle inside] by simp
          ultimately show ?thesis by (simp add: inner_post_def)
        next
          case cont: False
          have nw: "ret \<noteq> WARN" and nl: "\<not> lt_OK ret" using cont by simp_all
          have ge: "length pattern \<le> mr" using ib by simp
          have inv': "trace_inv ?p e (?off + ?p) ?tr'"
            using trace_inv_snoc[OF inv cle inside] cont by simp
          show ?thesis
          proof (cases "mm > 0 \<and> mm - 1 = 0")
            case True
            then have "ex = Done ret s' (u', ?tr')"
              using s1[unfolded if_not_P[OF nw] if_not_P[OF nl]] by simp
            then show ?thesis using inv' trace_inv_final by (simp add: inner_post_def)
          next
            case F3: False
            have "f buf offset e pattern rcb (match + i + ?p) (length buf - (match + i + ?p))
                     (if mm > 0 then mm - 1 else mm) s' (u', ?tr') = Some ex"
              using s1[unfolded if_not_P[OF nw] if_not_P[OF nl] if_not_P[OF F3] if_P[OF ge]] .
            from IH[OF this, rule_format, OF rcb pne] inv' ib
            show ?thesis by (simp add: add.assoc)
          qed
        qed
      qed
    qed
  qed
qed


lemma search_loop_trace:
  assumes "search_loop F e pattern rcb buf_size kept offset mm s ut = Some r"
  shows "\<forall>cb. rcb = traced cb \<longrightarrow> pattern \<noteq> [] \<longrightarrow>
           trace_inv (length pattern) e offset (snd ut) \<longrightarrow>
           trace_final (length pattern) e (snd (snd (snd r))) (fst r)"
proof (rule search_loop.raw_induct
    [where P = "\<lambda>F e pattern rcb buf_size kept offset mm s ut r.
        \<forall>cb. rcb = traced cb \<longrightarrow> pattern \<noteq> [] \<longrightarrow>
           trace_inv (length pattern) e offset (snd ut) \<longrightarrow>
           trace_final (length pattern) e (snd (snd (snd r))) (fst r)",
     OF _ assms])
  fix f :: "'a File \<Rightarrow> int \<Rightarrow> byte list \<Rightarrow>
            ('a, 'b \<times> (nat \<times> FileStatus) list) FileSearchResultCallback \<Rightarrow> nat \<Rightarrow>
            byte list \<Rightarrow> nat \<Rightarrow> int \<Rightarrow> 'a \<Rightarrow> 'b \<times> (nat \<times> FileStatus) list \<Rightarrow>
            (FileStatus \<times> 'a \<times> 'b \<times> (nat \<times> FileStatus) list) option"
  fix F e pattern rcb buf_size kept offset mm s ut r
  assume IH: "\<And>F e pattern rcb buf_size kept offset mm s ut r.
      f F e pattern rcb buf_size kept offset mm s ut = Some r \<Longrightarrow>
        \<forall>cb. rcb = traced cb \<longrightarrow> pattern \<noteq> [] \<longrightarrow>
           trace_inv (length pattern) e offset (snd ut) \<longrightarrow>
           trace_final (length pattern) e (snd (snd (snd r))) (fst r)"
    and step: "(case file_read_fully F s (buf_size - length kept) of
        None \<Rightarrow> None
      | Some (ret, data, s1) \<Rightarrow>
          if lt_OK ret then Some (ret, s1, ut)
          else if length (kept @ data) < length pattern then Some (ret, s1, ut)
          else if e \<ge> 0 \<and> offset \<ge> nat e then Some (ret, s1, ut)
          else if length (kept @ data) > UINT64_MAX - offset
          then Some (FAILED, File_set_error F s1 INTERNAL_ERROR, ut)
          else
            (case search_matches (kept @ data) offset e pattern rcb
                    0 (length (kept @ data)) mm s1 ut of
               None \<Rightarrow> None
             | Some (Done r s2 u2) \<Rightarrow> Some (r, s2, u2)
             | Some (Refill match_remain mm s2 u2) \<Rightarrow>
                 f F e pattern rcb buf_size
                   (drop (length (kept @ data) - min match_remain (length pattern - 1))
                      (kept @ data))
                   (offset + (length (kept @ data) - min match_remain (length pattern - 1)))
                   mm s2 u2)) = Some r"
  show "\<forall>cb. rcb = traced cb \<longrightarrow> pattern \<noteq> [] \<longrightarrow>
           trace_inv (length pattern) e offset (snd ut) \<longrightarrow>
           trace_final (length pattern) e (snd (snd (snd r))) (fst r)"
  proof (intro allI impI)
    fix cb
    assume rcb: "rcb = traced cb" and pne: "pattern \<noteq> []"
      and inv: "trace_inv (length pattern) e offset (snd ut)"
    let ?p = "length pattern"
    show "trace_final ?p e (snd (snd (snd r))) (fst r)"
    proof (cases "file_read_fully F s (buf_size - length kept)")
      case None
      then show ?thesis using step by simp
    next
      case (Some a)
      obtain ret data s1 where a: "a = (ret, data, s1)" by (cases a) auto
      let ?buf = "kept @ data"
      note s1 = step[unfolded Some a option.case prod.case]
      show ?thesis
      proof (cases "lt_OK ret \<or> length ?buf < ?p \<or> (e \<ge> 0 \<and> offset \<ge> nat e)
                    \<or> length ?buf > UINT64_MAX - offset")
        case True
        then have "snd (snd r) = ut" using s1 by (auto split: if_splits)
        then show ?thesis using inv trace_inv_final by simp
      next
        case False
        then have c1: "\<not> lt_OK ret" and c2: "\<not> length ?buf < ?p"
          and c3: "\<not> (e \<ge> 0 \<and> offset \<ge> nat e)"
          and c4: "\<not> length ?buf > UINT64_MAX - offset" by blast+
        note s2 = s1[unfolded if_not_P[OF c1] if_not_P[OF c2] if_not_P[OF c3] if_not_P[OF c4]]
        show ?thesis
        proof (cases "search_matches ?buf offset e pattern rcb 0 (length ?buf) mm s1 ut")
          case None
          then show ?thesis using s2 by simp
        next
          case (Some ex)
          have "trace_inv ?p e (offset + 0) (snd ut)" using inv by simp
          with search_matches_trace[OF Some, rule_format, OF rcb pne]
          have post: "inner_post ?p e offset (length ?buf) ex" by simp
          show ?thesis
          proof (cases ex)
            case (Done r' s2' u2)
            then have "r = (r', s2', u2)" using s2 Some by simp
            then show ?thesis using post Done by (simp add: inner_post_def)
          next
            case (Refill mr mm' s2' u2)
            let ?off' = "offset + (length ?buf - min mr (?p - 1))"
            have rec: "f F e pattern rcb buf_size
                   (drop (length ?buf - min mr (?p - 1)) ?buf) ?off' mm' s2' u2 = Some r"
              using s2 Some Refill by simp
            have "mr \<le> length ?buf \<and> trace_inv ?p e (offset + (length ?buf - mr)) (snd u2)"
              using post unfolding Refill inner_post_def search_exit.case .
            then have "trace_inv ?p e ?off' (snd u2)"
              by (elim conjE trace_inv_mono) auto
            with IH[OF rec, rule_format, OF rcb pne] show ?thesis by simp
          qed
        qed
      qed
    qed
  qed
qed

lemma file_search_trace:
  assumes "file_search F malloc s start e bsize pattern mm (traced cb) (u, []) = Some (st, s', (u', tr))"
  shows "trace_final (length pattern) e tr st"
proof -
  have empty: "trace_final (length pattern) e [] x" for x
    by (simp add: trace_final_def)
  have inv0: "trace_inv (length pattern) e c (snd (u, []))" for c
    by (simp add: trace_inv_def)
  show ?thesis
  proof (cases "(start \<ge> 0 \<and> e \<ge> 0 \<and> e < start) \<or> mm = 0 \<or> length pattern = 0")
    case True
    then have "tr = []" using assms by (auto simp: file_search_def split: if_splits)
    then show ?thesis using empty by simp
  next
    case False
    then have pne: "pattern \<noteq> []" by auto
    define buf_size where "buf_size =
               (if bsize \<noteq> 0 then bsize
                else if length pattern > SIZE_MAX div 2 then SIZE_MAX
                else max DEFAULT_BUFFER_SIZE (length pattern * 2))"
    define offset where "offset = (if start \<ge> 0 then nat start else 0)"
    show ?thesis
    proof (cases "buf_size < length pattern \<or> \<not> malloc buf_size")
      case True
      then have "tr = []" using assms False
        by (auto simp: file_search_def Let_def buf_size_def split: if_splits)
      then show ?thesis using empty by simp
    next
      case F2: False
      have scan: "file_search_scan F e pattern (traced cb) buf_size offset mm s (u, [])
                    = Some (st, s', (u', tr))"
        using assms False F2 by (auto simp: file_search_def Let_def buf_size_def offset_def)
      obtain ret s1 where sk: "File_seek F s offset = (ret, s1)"
        by (cases "File_seek F s offset") auto
      note sc = scan[unfolded file_search_scan_def sk prod.case]
      have loop: "trace_final (length pattern) e tr st"
        if "search_loop F e pattern (traced cb) buf_size [] offset mm s2 (u, [])
              = Some (st, s', (u', tr))" for s2
        using search_loop_trace[OF that, rule_format, OF refl pne inv0] by simp
      show ?thesis
      proof (cases "ret = UNSUPPORTED")
        case True
        note sc1 = sc[unfolded if_P[OF True]]
        show ?thesis
        proof (cases "file_read_discard F s1 offset")
          case None
          then show ?thesis using sc1 by simp
        next
          case (Some a)
          obtain ret2 discarded s2 where a: "a = (ret2, discarded, s2)" by (cases a) auto
          note sc2 = sc1[unfolded Some a option.case prod.case]
          show ?thesis
          proof (cases "lt_OK ret2 \<or> discarded \<noteq> offset")
            case True
            then have "tr = []" using sc2 by (auto split: if_splits)
            then show ?thesis using empty by simp
          next
            case F3: False
            then show ?thesis using sc2 loop by (auto split: if_splits)
          qed
        qed
      next
        case F4: False
        note sc1 = sc[unfolded if_not_P[OF F4]]
        show ?thesis
        proof (cases "lt_OK ret")
          case True
          then have "tr = []" using sc1 by simp
          then show ?thesis using empty by simp
        next
          case F5: False
          then show ?thesis using sc1 loop by simp
        qed
      qed
    qed
  qed
qed

lemma gapped_nth:
  "gapped p xs \<Longrightarrow> Suc i < length xs \<Longrightarrow> xs ! i + p \<le> xs ! Suc i"
proof (induction p xs arbitrary: i rule: gapped.induct)
  case (3 p x y ys)
  then show ?case by (cases i) auto
qed auto

lemma file_search_trace_pattern:
  assumes "file_search F malloc s start e bsize pattern mm rcb (u, []) = Some (st, s', (u', tr))"
    and "tr \<noteq> []"
  shows "pattern \<noteq> []"
  using assms by (auto simp: file_search_def split: if_splits)

lemmas search_eval =
  file_search_def file_search_scan_def search_loop.simps search_matches.simps
  file_read_discard_def read_discard_loop.simps traced_def answer_cb_def record_cb_def
  SIZE_MAX_def DEFAULT_BUFFER_SIZE_def

text \<open>
  Claim C3. Whenever \<open>file_search\<close> returns, on any handle and with any callback, the
  offsets it has passed to the callback, in the order of the calls, lie at least
  \<open>pattern_size\<close> apart and increase strictly: \<open>match[i+1] \<ge> match[i] + pattern_size\<close>. The
  trace spans all fills of the buffer, so a match found after a refill never overlaps one
  reported before it.
\<close>

theorem search_matches_never_overlap:
  assumes "file_search F malloc s start end bsize pattern max_matches (traced cb) (u, [])
             = Some (st, s', (u', tr))"
  shows "gapped (length pattern) (map fst tr)
       \<and> (\<forall>i. Suc i < length tr \<longrightarrow>
              fst (tr ! i) + length pattern \<le> fst (tr ! Suc i) \<and> fst (tr ! i) < fst (tr ! Suc i))"
proof -
  have g: "gapped (length pattern) (map fst tr)"
    using file_search_trace[OF assms] by (simp add: trace_final_def)
  have "fst (tr ! i) + length pattern \<le> fst (tr ! Suc i) \<and> fst (tr ! i) < fst (tr ! Suc i)"
    if i: "Suc i < length tr" for i
  proof -
    have "tr \<noteq> []" using i by auto
    then have "pattern \<noteq> []" using file_search_trace_pattern[OF assms] by simp
    then have p0: "0 < length pattern" by (cases pattern) simp_all
    have "map fst tr ! i + length pattern \<le> map fst tr ! Suc i"
      using gapped_nth[OF g] i by simp
    then have "fst (tr ! i) + length pattern \<le> fst (tr ! Suc i)" using i by simp
    then show ?thesis using p0 by linarith
  qed
  then show ?thesis using g by blast
qed

theorem search_matches_never_overlap_witness:
  "file_search MemFile (\<lambda>n. True) (demo_file [1, 2, 1, 2, 1, 2, 1, 2, 1, 2] [AtMost 2]) (-1) (-1) 5
      [1, 2, 1, 2] (-1) (traced (answer_cb (\<lambda>off. OK))) (0, [])
     = Some (OK, (demo_file [1, 2, 1, 2, 1, 2, 1, 2, 1, 2] [])\<lparr>pos := 10\<rparr>,
         (2, [(0, OK), (4, OK)]))
   \<and> gapped (length [1, 2, 1, 2 :: byte]) (map fst [(0 :: nat, OK), (4, OK)])"
proof -
  have run: "file_search MemFile (\<lambda>n. True) (demo_file [1, 2, 1, 2, 1, 2, 1, 2, 1, 2] [AtMost 2])
      (-1) (-1) 5 [1, 2, 1, 2] (-1) (traced (answer_cb (\<lambda>off. OK))) (0, [])
     = Some (OK, (demo_file [1, 2, 1, 2, 1, 2, 1, 2, 1, 2] [])\<lparr>pos := 10\<rparr>,
         (2, [(0, OK), (4, OK)]))"
    by (simp add: search_eval mem_eval)
  from search_matches_never_overlap[OF run] show ?thesis using run by blast
qed

text \<open>
  Claim C9. With a valid range and \<open>max_matches\<close> other than zero, an explicit buffer size
  below the pattern size makes \<open>file_search\<close> fail with invalid-argument: the result is
  \<open>FAILED\<close> and the handle is the one of the call with the error recorded, for every handle,
  so no read, write or seek has taken place. An explicit buffer size equal to the pattern
  size passes the check: the call goes on to position the handle and scan.
\<close>

theorem file_search_rejects_small_buffer:
  assumes "bsize \<noteq> 0"
    and "\<not> (0 \<le> start \<and> 0 \<le> end \<and> end < start)"
    and "max_matches \<noteq> 0"
  shows "(bsize < length pattern \<longrightarrow>
            file_search F malloc s start end bsize pattern max_matches result_cb u
              = Some (FAILED, File_set_error F s INVALID_ARGUMENT, u))
       \<and> (bsize = length pattern \<and> malloc bsize \<longrightarrow>
            file_search F malloc s start end bsize pattern max_matches result_cb u
              = file_search_scan F end pattern result_cb bsize
                  (if 0 \<le> start then nat start else 0) max_matches s u)"
  using assms by (auto simp: file_search_def)

theorem file_search_rejects_small_buffer_witness:
  "file_search MemFile (\<lambda>n. True) (demo_file [1, 2, 3, 4, 1, 2, 3, 4] [Again]) (-1) (-1) 2
      [1, 2, 3, 4] (-1) record_cb []
     = Some (FAILED,
         (demo_file [1, 2, 3, 4, 1, 2, 3, 4] [Again])\<lparr>last_error := Some INVALID_ARGUMENT\<rparr>, [])
   \<and> file_search MemFile (\<lambda>n. True) (demo_file [1, 2, 3, 4, 1, 2, 3, 4] [Again]) (-1) (-1) 4
      [1, 2, 3, 4] (-1) record_cb []
     = file_search_scan MemFile (-1) [1, 2, 3, 4] record_cb 4 0 (-1)
         (demo_file [1, 2, 3, 4, 1, 2, 3, 4] [Again]) []"
  using file_search_rejects_small_buffer [of 2 "-1" "-1" "-1" "[1, 2, 3, 4]" MemFile "\<lambda>n. True"
      "demo_file [1, 2, 3, 4, 1, 2, 3, 4] [Again]" record_cb "[]"]
    file_search_rejects_small_buffer [of 4 "-1" "-1" "-1" "[1, 2, 3, 4]" MemFile "\<lambda>n. True"
      "demo_file [1, 2, 3, 4, 1, 2, 3, 4] [Again]" record_cb "[]"]
  by (simp add: mem_set_error_def)

text \<open>
  Claim C8 fails on the code, by the defect of claim C2. On a handle that cannot seek and
  holds 20480 bytes, a search from offset 10241 discards 20480 bytes, finds the count
  different from the offset and fails with \<open>FATAL\<close> and invalid-argument, although the
  handle had the 10241 bytes to skip.
\<close>

theorem file_search_discard_fallback_fails:
  "file_search MemFile (\<lambda>n. True) ((demo_file (replicate 20480 0) [])\<lparr>seekable := False\<rparr>)
      10241 (-1) 16 [1, 2] (-1) record_cb []
     = Some (FATAL,
         (demo_file (replicate 20480 0) [])
           \<lparr>pos := 20480, seekable := False, last_error := Some INVALID_ARGUMENT\<rparr>, [])"
  by (simp add: file_search_def file_search_scan_def file_read_discard_def
      read_discard_loop.simps mem_read_def mem_seek_def mem_set_error_def demo_file_def)
section \<open>The matches reported on the scripted handle\<close>


declare ref_matches.simps [simp del]

lemma ref_matches_hit:
  "pat \<noteq> [] \<Longrightarrow> occurs_at c pat j \<Longrightarrow>
     ref_matches c pat j = j # ref_matches c pat (j + length pat)"
  by (subst ref_matches.simps) (simp add: occurs_at_def)

lemma ref_matches_miss:
  assumes "\<not> occurs_at c pat j"
  shows "ref_matches c pat j = ref_matches c pat (Suc j)"
proof (cases "pat = [] \<or> length c < j + length pat")
  case True
  then have "ref_matches c pat j = []" by (subst ref_matches.simps) simp
  moreover have "ref_matches c pat (Suc j) = []" using True by (subst ref_matches.simps) auto
  ultimately show ?thesis by simp
next
  case False
  then have "take (length pat) (drop j c) \<noteq> pat" using assms by (auto simp: occurs_at_def)
  then show ?thesis using False by (subst ref_matches.simps) simp
qed

lemma ref_matches_end:
  "length c < j + length pat \<Longrightarrow> ref_matches c pat j = []"
  by (subst ref_matches.simps) simp

lemma ref_matches_skip:
  assumes "a \<le> b" and "\<forall>j. a \<le> j \<and> j < b \<longrightarrow> \<not> occurs_at c pat j"
  shows "ref_matches c pat a = ref_matches c pat b"
  using assms
proof (induction "b - a" arbitrary: a)
  case 0
  then show ?case by simp
next
  case (Suc n)
  then have "a < b" by simp
  then have "\<not> occurs_at c pat a" using Suc.prems by simp
  then have "ref_matches c pat a = ref_matches c pat (Suc a)" by (rule ref_matches_miss)
  moreover have "ref_matches c pat (Suc a) = ref_matches c pat b"
    using Suc.hyps(1)[of "Suc a"] Suc.hyps(2) Suc.prems \<open>a < b\<close> by simp
  ultimately show ?case by simp
qed

lemma occurs_at_Cons_Suc: "occurs_at (x # xs) nd (Suc j) = occurs_at xs nd j"
  by (simp add: occurs_at_def)

lemma occurs_at_0: "occurs_at h nd 0 = (take (length nd) h = nd)"
  unfolding occurs_at_def by (metis add_0 drop0 length_take min.cobounded1)

lemma mb_memmem_Some:
  "mb_memmem h nd = Some i \<Longrightarrow> occurs_at h nd i \<and> (\<forall>j<i. \<not> occurs_at h nd j)"
proof (induction h arbitrary: i)
  case Nil
  then show ?case by (auto simp: occurs_at_def split: if_splits)
next
  case (Cons x xs)
  show ?case
  proof (cases "take (length nd) (x # xs) = nd")
    case True
    then have "i = 0" using Cons.prems by simp
    then show ?thesis using True occurs_at_0 by simp
  next
    case False
    then obtain k where k: "mb_memmem xs nd = Some k" "i = Suc k"
      using Cons.prems by auto
    have n0: "\<not> occurs_at (x # xs) nd 0" using False occurs_at_0 by blast
    have "occurs_at xs nd k \<and> (\<forall>j<k. \<not> occurs_at xs nd j)" using Cons.IH[OF k(1)] .
    then show ?thesis using k(2) n0 occurs_at_Cons_Suc
      by (auto simp: less_Suc_eq_0_disj)
  qed
qed

lemma mb_memmem_None:
  "mb_memmem h nd = None \<Longrightarrow> \<not> occurs_at h nd j"
proof (induction h arbitrary: j)
  case Nil
  then show ?case by (auto simp: occurs_at_def split: if_splits)
next
  case (Cons x xs)
  have n0: "\<not> occurs_at (x # xs) nd 0"
    using Cons.prems occurs_at_0 by (auto split: if_splits)
  have "mb_memmem xs nd = None" using Cons.prems by (auto split: if_splits)
  then have "\<not> occurs_at xs nd k" for k using Cons.IH by blast
  then show ?case using n0 occurs_at_Cons_Suc by (cases j) auto
qed

lemma occurs_at_window:
  assumes "a + m \<le> length c"
  shows "occurs_at (take m (drop a c)) pat i = (i + length pat \<le> m \<and> occurs_at c pat (a + i))"
proof (cases "i + length pat \<le> m")
  case False
  then show ?thesis using assms by (simp add: occurs_at_def)
next
  case True
  have "take (length pat) (drop i (take m (drop a c))) = take (length pat) (drop (a + i) c)"
    using True by (simp add: drop_take min_def add.commute)
  then show ?thesis using True assms by (simp add: occurs_at_def)
qed

lemma occurs_at_searched:
  "occurs_at (searched c e) pat j = (occurs_at c pat j \<and> (0 \<le> e \<longrightarrow> int (j + length pat) \<le> e))"
proof (cases "0 \<le> e")
  case False
  then show ?thesis by (simp add: searched_def)
next
  case True
  show ?thesis
  proof (cases "j + length pat \<le> nat e")
    case F: False
    then show ?thesis using True by (auto simp: searched_def occurs_at_def)
  next
    case T: True
    have "take (length pat) (drop j (take (nat e) c)) = take (length pat) (drop j c)"
      using T by (simp add: drop_take min_def)
    then show ?thesis using True T by (auto simp: searched_def occurs_at_def)
  qed
qed


lemma ref_matches_none:
  assumes "\<forall>j\<ge>a. \<not> occurs_at c pat j"
  shows "ref_matches c pat a = []"
proof -
  have "ref_matches c pat a = ref_matches c pat (a + Suc (length c))"
    using assms by (intro ref_matches_skip) auto
  also have "\<dots> = []" by (rule ref_matches_end) simp
  finally show ?thesis .
qed

lemma take_budget_Cons:
  "mm \<noteq> 0 \<Longrightarrow> \<not> (0 < mm \<and> mm - 1 = 0) \<Longrightarrow>
     take_budget mm (x # xs) = x # take_budget (if 0 < mm then mm - 1 else mm) xs"
  by (auto simp: take_budget_def nat_diff_distrib' take_Cons')

lemma take_budget_one: "0 < mm \<and> mm - 1 = 0 \<Longrightarrow> take_budget mm (x # xs) = [x]"
  by (auto simp: take_budget_def)

lemma traced_answers:
  assumes "answers cb f"
  shows "\<exists>u'. traced cb s (u, tr) off = (f off, s, (u', tr @ [(off, f off)]))"
proof -
  obtain ret s' u' where c: "cb s u off = (ret, s', u')" by (cases "cb s u off") auto
  then have "ret = f off" "s' = s" using assms unfolding answers_def
    by (metis fst_conv, metis fst_conv snd_conv)
  then show ?thesis using c by (simp add: traced_def)
qed

lemma search_matches_run:
  assumes pne: "pat \<noteq> []" and ok: "answers cb f"
    and buf: "buf = take n (drop offset c)" and fit: "offset + n \<le> length c"
    and m: "match \<le> n" and mm: "mm \<noteq> 0"
  shows "\<exists>ex. search_matches buf offset e pat (traced cb) match (n - match) mm s (u, tr) = Some ex
            \<and> run_post c pat e f offset n mm (offset + match) s tr ex"
  using m mm
proof (induction "n - match" arbitrary: match mm u tr rule: less_induct)
  case less
  define p where "p = length pat"
  define cur where "cur = offset + match"
  define L where "L = searched c e"
  have p0: "0 < p" using pne by (simp add: p_def)
  have lbuf: "length buf = n" using buf fit by simp
  have h: "take (n - match) (drop match buf) = take (n - match) (drop cur c)"
    unfolding buf cur_def by (simp add: drop_take add.commute)
  have win: "cur + (n - match) \<le> length c" using fit less.prems by (simp add: cur_def)
  note eq = search_matches.simps[of buf offset e pat "traced cb" match "n - match" mm s "(u, tr)"]
  show ?case
  proof (cases "mb_memmem (take (n - match) (drop match buf)) pat")
    case None
    have nocc: "\<not> occurs_at c pat (cur + i)" if "i + p \<le> n - match" for i
      using mb_memmem_None[OF None, of i] that
      unfolding h occurs_at_window[OF win] p_def by simp
    define cur' where "cur' = offset + (n - min (n - match) (p - 1))"
    have "cur \<le> cur'" using less.prems by (simp add: cur_def cur'_def)
    moreover have "\<not> occurs_at L pat j" if "cur \<le> j \<and> j < cur'" for j
    proof -
      have "j < offset + (n - min (n - match) (p - 1))" and "offset + match \<le> j"
        using that unfolding cur_def cur'_def by simp_all
      then have "(j - cur) + p \<le> n - match"
        using p0 less.prems(1) unfolding cur_def by arith
      from nocc[OF this] show ?thesis
        using that unfolding L_def occurs_at_searched by simp
    qed
    ultimately have skip: "ref_matches L pat cur = ref_matches L pat cur'"
      by (intro ref_matches_skip) auto
    have "search_matches buf offset e pat (traced cb) match (n - match) mm s (u, tr)
            = Some (Refill (n - match) mm s (u, tr))"
      using eq[unfolded None option.case] .
    moreover have "run_post c pat e f offset n mm (offset + match) s tr
                     (Refill (n - match) mm s (u, tr))"
      unfolding run_post_def search_exit.case
      using less.prems skip unfolding L_def cur_def cur'_def p_def by simp
    ultimately show ?thesis by blast
  next
    case (Some i)
    define J where "J = offset + (match + i)"
    have occ: "occurs_at (take (n - match) (drop cur c)) pat i"
      and first: "\<forall>j<i. \<not> occurs_at (take (n - match) (drop cur c)) pat j"
      using mb_memmem_Some[OF Some] unfolding h by simp_all
    have "i + length pat \<le> n - match \<and> occurs_at c pat (cur + i)"
      using occ unfolding occurs_at_window[OF win] .
    then have ib: "i + p \<le> n - match" and occJ: "occurs_at c pat J"
      unfolding p_def J_def cur_def by (simp_all add: add.assoc)
    have before: "\<not> occurs_at L pat j" if "cur \<le> j \<and> j < J" for j
    proof -
      have "j - cur < i" using that unfolding J_def cur_def by linarith
      then have "\<not> occurs_at (take (n - match) (drop cur c)) pat (j - cur)" using first by blast
      moreover have "(j - cur) + length pat \<le> n - match"
        using \<open>j - cur < i\<close> ib unfolding p_def by linarith
      ultimately have "\<not> occurs_at c pat (cur + (j - cur))"
        unfolding occurs_at_window[OF win] by simp
      then show ?thesis using that unfolding L_def occurs_at_searched by simp
    qed
    have cJ: "cur \<le> J" unfolding cur_def J_def by simp
    have toJ: "ref_matches L pat cur = ref_matches L pat J"
      using cJ before by (intro ref_matches_skip) auto
    note eq1 = eq[unfolded Some option.case]
    show ?thesis
    proof (cases "e \<ge> 0 \<and> int (offset + (match + i) + length pat) > e")
      case True
      have "\<not> occurs_at L pat j" if "cur \<le> j" for j
      proof (cases "j < J")
        case True
        then show ?thesis using before that by blast
      next
        case False
        then have "int (j + length pat) > e" using \<open>e \<ge> 0 \<and> int (offset + (match + i) + length pat) > e\<close>
          unfolding J_def by linarith
        then show ?thesis using True unfolding L_def occurs_at_searched by simp
      qed
      then have none: "ref_matches L pat cur = []" by (intro ref_matches_none) auto
      have "search_matches buf offset e pat (traced cb) match (n - match) mm s (u, tr)
            = Some (Done OK s (u, tr))"
        using eq1[unfolded if_P[OF True]] .
      moreover have "run_post c pat e f offset n mm (offset + match) s tr (Done OK s (u, tr))"
        unfolding run_post_def search_exit.case
        using none unfolding L_def cur_def by simp
      ultimately show ?thesis by blast
    next
      case False
      then have inside: "0 \<le> e \<longrightarrow> int (J + length pat) \<le> e" unfolding J_def by linarith
      have "occurs_at L pat J" unfolding L_def occurs_at_searched using occJ inside by simp
      then have hit: "ref_matches L pat cur = J # ref_matches L pat (J + p)"
        using toJ ref_matches_hit[OF pne] unfolding p_def by simp
      obtain u' where call:
        "traced cb s (u, tr) (offset + (match + i)) = (f J, s, (u', tr @ [(J, f J)]))"
        using traced_answers[OF ok, of s u tr "offset + (match + i)"] unfolding J_def by blast
      note eq2 = eq1[unfolded if_not_P[OF False] call prod.case]
      note rr = ref_run.simps(2)[of f mm J "ref_matches L pat (J + p)" tr]
      show ?thesis
      proof (cases "f J = WARN")
        case True
        have "search_matches buf offset e pat (traced cb) match (n - match) mm s (u, tr)
            = Some (Done OK s (u', tr @ [(J, f J)]))"
          using eq2[unfolded if_P[OF True]] .
        moreover have "run_post c pat e f offset n mm (offset + match) s tr
                         (Done OK s (u', tr @ [(J, f J)]))"
          unfolding run_post_def search_exit.case
          using hit rr[unfolded if_P[OF True]] unfolding L_def cur_def by simp
        ultimately show ?thesis by blast
      next
        case nW: False
        show ?thesis
        proof (cases "lt_OK (f J)")
          case True
          have "search_matches buf offset e pat (traced cb) match (n - match) mm s (u, tr)
              = Some (Done (f J) s (u', tr @ [(J, f J)]))"
            using eq2[unfolded if_not_P[OF nW] if_P[OF True]] .
          moreover have "run_post c pat e f offset n mm (offset + match) s tr
                           (Done (f J) s (u', tr @ [(J, f J)]))"
            unfolding run_post_def search_exit.case
            using hit rr[unfolded if_not_P[OF nW] if_P[OF True]] unfolding L_def cur_def by simp
          ultimately show ?thesis by blast
        next
          case nL: False
          note eq3 = eq2[unfolded if_not_P[OF nW] if_not_P[OF nL]]
          note rr3 = rr[unfolded if_not_P[OF nW] if_not_P[OF nL]]
          show ?thesis
          proof (cases "mm > 0 \<and> mm - 1 = 0")
            case True
            have "search_matches buf offset e pat (traced cb) match (n - match) mm s (u, tr)
                = Some (Done (f J) s (u', tr @ [(J, f J)]))"
              using eq3[unfolded if_P[OF True]] .
            moreover have "run_post c pat e f offset n mm (offset + match) s tr
                             (Done (f J) s (u', tr @ [(J, f J)]))"
              unfolding run_post_def search_exit.case
              using hit rr3[unfolded if_P[OF True]] unfolding L_def cur_def by simp
            ultimately show ?thesis by blast
          next
            case F2: False
            define match' where "match' = match + i + length pat"
            define mm' where "mm' = (if mm > 0 then mm - 1 else mm)"
            have ge: "length pat \<le> n - match" using ib unfolding p_def by simp
            have m': "match' \<le> n" using ib less.prems unfolding match'_def p_def by linarith
            have mm'0: "mm' \<noteq> 0" using F2 less.prems unfolding mm'_def by auto
            have step: "search_matches buf offset e pat (traced cb) match (n - match) mm s (u, tr)
                = search_matches buf offset e pat (traced cb) match' (n - match') mm' s
                    (u', tr @ [(J, f J)])"
              using eq3[unfolded if_not_P[OF F2] if_P[OF ge]]
              unfolding match'_def mm'_def lbuf .
            have dec: "n - match' < n - match"
              using m' p0 less.prems unfolding match'_def p_def by linarith
            from less.hyps[OF dec m' mm'0, of u' "tr @ [(J, f J)]"] obtain ex where
              R: "search_matches buf offset e pat (traced cb) match' (n - match') mm' s
                    (u', tr @ [(J, f J)]) = Some ex"
              and P: "run_post c pat e f offset n mm' (offset + match') s (tr @ [(J, f J)]) ex"
              by blast
            have Jp: "offset + match' = J + p" unfolding match'_def J_def p_def by simp
            have conv: "ref_run f mm (ref_matches L pat cur) tr
                    = ref_run f mm' (ref_matches L pat (J + p)) (tr @ [(J, f J)])"
              unfolding hit mm'_def using rr3[unfolded if_not_P[OF F2]] .
            have "run_post c pat e f offset n mm (offset + match) s tr ex"
              using P unfolding run_post_def Jp
              unfolding L_def[symmetric] cur_def[symmetric] conv .
            then show ?thesis using step R by simp
          qed
        qed
      qed
    qed
  qed
qed

section \<open>Region move on the scripted handle\<close>


lemma no_fail_ok: "no_fail x \<Longrightarrow> sched_item_ok x"
  by (cases x) auto

lemma take_min_length: "take (min n (length xs)) xs = take n xs"
  by (simp add: min_def)

lemma mem_file_read_fully:
  assumes "\<forall>x\<in>set (sched s). no_fail x"
  shows "\<exists>sch'. file_read_fully MemFile s n
           = Some (OK, take n (drop (pos s) (content s)),
               s\<lparr>pos := pos s + length (take n (drop (pos s) (content s))), sched := sch'\<rparr>)
         \<and> (\<forall>x\<in>set sch'. no_fail x)"
proof -
  have "\<forall>x\<in>set (sched s). sched_item_ok x" using assms no_fail_ok by blast
  from mem_read_fully_loop[OF this, of n "[]"] obtain r where
    r: "file_read_fully MemFile s n = Some r" and p: "read_post s n [] r"
    unfolding file_read_fully_def by blast
  from p[unfolded read_post_def] obtain st d sch' where
    r0: "r = (st, [] @ d, s\<lparr>pos := pos s + length d, sched := sch'\<rparr>)"
    and d: "take (length d) (drop (pos s) (content s)) = d"
    and ok: "st = OK \<longrightarrow> length d = min (n - length ([]::byte list)) (length (content s) - pos s)"
    and nf: "(\<forall>x\<in>set (sched s). no_fail x) \<longrightarrow> st = OK"
    and sub: "set sch' \<subseteq> set (sched s)"
    by blast
  have st: "st = OK" using nf assms by blast
  then have "length d = min n (length (drop (pos s) (content s)))" using ok by simp
  then have "take (min n (length (drop (pos s) (content s)))) (drop (pos s) (content s)) = d"
    using d by simp
  then have dd: "d = take n (drop (pos s) (content s))"
    by (simp only: take_min_length)
  have "\<forall>x\<in>set sch'. no_fail x" using sub assms by blast
  then show ?thesis using r r0 st dd by auto
qed

lemma mem_file_write_fully:
  assumes "\<forall>x\<in>set (sched s). no_fail x" and "pos s + length buf \<le> cap s"
  shows "\<exists>sch'. file_write_fully MemFile s buf
           = Some (OK, length buf,
               s\<lparr>content := mem_put (content s) (pos s) buf,
                 pos := pos s + length buf, sched := sch'\<rparr>)
         \<and> (\<forall>x\<in>set sch'. no_fail x)"
proof -
  have "\<forall>x\<in>set (sched s). sched_item_ok x" using assms no_fail_ok by blast
  from mem_write_fully_loop[OF this, of buf 0] obtain r where
    r: "file_write_fully MemFile s buf = Some r" and p: "write_post s buf 0 r"
    unfolding file_write_fully_def by blast
  from p[unfolded write_post_def] obtain st n sch' where
    r0: "r = (st, 0 + n,
           s\<lparr>content := mem_put (content s) (pos s) (take n (drop 0 buf)),
             pos := pos s + n, sched := sch'\<rparr>)"
    and ok: "st = OK \<longrightarrow> n = min (length buf - 0) (cap s - pos s)"
    and nf: "(\<forall>x\<in>set (sched s). no_fail x) \<longrightarrow> st = OK"
    and sub: "set sch' \<subseteq> set (sched s)"
    by blast
  have st: "st = OK" using nf assms by blast
  then have n: "n = length buf" using ok assms(2) by simp
  have "\<forall>x\<in>set sch'. no_fail x" using sub assms by blast
  then show ?thesis using r r0 st n by auto
qed

lemma drop_mem_put_above:
  assumes "p + length d \<le> q"
  shows "drop q (mem_put c p d) = drop q c"
proof (cases "d = []")
  case True
  then show ?thesis by simp
next
  case False
  have "min (length c) p + (p - length c) = p" by arith
  then show ?thesis using assms False by (simp add: mem_put_def)
qed

lemma take_mem_put_below:
  "q \<le> p \<Longrightarrow> q \<le> length c \<Longrightarrow> take q (mem_put c p d) = take q c"
  by (cases "d = []") (auto simp: mem_put_def)

lemma mem_put_same:
  assumes "p + n \<le> length c"
  shows "mem_put c p (take n (drop p c)) = c"
proof (cases "take n (drop p c) = []")
  case True
  then show ?thesis by (simp only: mem_put_Nil)
next
  case False
  have "take n (drop p c) @ drop (p + n) c = drop p c"
    by (metis append_take_drop_id drop_drop add.commute)
  then have "take p c @ take n (drop p c) @ drop (p + n) c = c" by simp
  moreover have "length (take n (drop p c)) = n" using assms by simp
  moreover have "p - length c = 0" using assms by simp
  ultimately show ?thesis using False unfolding mem_put_def by simp
qed



lemma mem_move_forwards:
  assumes "seekable s" and "\<forall>x\<in>set (sched s). no_fail x" and "0 < bufsz" and "dest < src"
    and "src + sz \<le> length (content s)" and "dest + sz \<le> cap s" and "m \<le> sz"
  shows "\<exists>p' sch'. move_forwards bufsz MemFile src dest sz m s
           = Some (OK, sz,
               s\<lparr>content := mem_put (content s) (dest + m)
                               (take (sz - m) (drop (src + m) (content s))),
                 pos := p', sched := sch'\<rparr>)"
  using assms
proof (induction "sz - m" arbitrary: m s rule: less_induct)
  case less
  show ?case
  proof (cases "m < sz")
    case False
    then have "m = sz" using less.prems by simp
    then have "move_forwards bufsz MemFile src dest sz m s = Some (OK, sz, s)"
      by (subst move_forwards.simps) simp
    moreover have "s = s\<lparr>content := mem_put (content s) (dest + m)
                               (take (sz - m) (drop (src + m) (content s))),
                 pos := pos s, sched := sched s\<rparr>"
      using \<open>m = sz\<close> by simp
    ultimately show ?thesis by metis
  next
    case True
    define c where "c = content s"
    define k where "k = min bufsz (sz - m)"
    define data where "data = take k (drop (src + m) c)"
    have k0: "0 < k" and km: "m + k \<le> sz" using True less.prems by (simp_all add: k_def)
    have kl: "src + m + k \<le> length c" using less.prems km by (simp add: c_def)
    have dl: "length data = k" using kl by (simp add: data_def)
    have dne: "data \<noteq> []" using dl k0 by auto
    have capc: "dest + sz \<le> cap s" using less.prems by simp
    let ?s1 = "s\<lparr>pos := src + m\<rparr>"
    have sk1: "mem_seek s (src + m) = (OK, ?s1)" using less.prems by (simp add: mem_seek_def)
    have "\<forall>x\<in>set (sched ?s1). no_fail x" using less.prems by simp
    from mem_file_read_fully[OF this, of k] obtain sch1 where
      rd: "file_read_fully MemFile ?s1 k
             = Some (OK, data, s\<lparr>pos := src + m + k, sched := sch1\<rparr>)"
      and nf1: "\<forall>x\<in>set sch1. no_fail x"
      using dl by (auto simp: data_def c_def)
    let ?s2 = "s\<lparr>pos := src + m + k, sched := sch1\<rparr>"
    let ?s3 = "s\<lparr>pos := dest + m, sched := sch1\<rparr>"
    have sk2: "mem_seek ?s2 (dest + m) = (OK, ?s3)" using less.prems by (simp add: mem_seek_def)
    have "\<forall>x\<in>set (sched ?s3). no_fail x" using nf1 by simp
    moreover have "pos ?s3 + length data \<le> cap ?s3" using km dl capc by simp
    ultimately obtain sch2 where
      wr: "file_write_fully MemFile ?s3 data
             = Some (OK, k, s\<lparr>content := mem_put c (dest + m) data,
                                 pos := dest + m + k, sched := sch2\<rparr>)"
      and nf2: "\<forall>x\<in>set sch2. no_fail x"
      using mem_file_write_fully[of ?s3 data] dl by (auto simp: c_def)
    define c4 where "c4 = mem_put c (dest + m) data"
    let ?s4 = "s\<lparr>content := c4, pos := dest + m + k, sched := sch2\<rparr>"
    have len4: "length c4 = length c"
      using less.prems(4) kl dl k0 by (simp add: c4_def length_mem_put)
    have step: "move_forwards bufsz MemFile src dest sz m s
                  = move_forwards bufsz MemFile src dest sz (m + k) ?s4"
      using True sk1 rd sk2 wr dl dne
      by (subst move_forwards.simps) (simp add: k_def[symmetric] c4_def)
    have "sz - (m + k) < sz - m" using k0 True by simp
    moreover have "seekable ?s4" using less.prems by simp
    moreover have "\<forall>x\<in>set (sched ?s4). no_fail x" using nf2 by simp
    moreover have "src + sz \<le> length (content ?s4)" using len4 less.prems by (simp add: c_def)
    moreover have "dest + sz \<le> cap ?s4" using capc by simp
    ultimately obtain p' sch' where
      R: "move_forwards bufsz MemFile src dest sz (m + k) ?s4
           = Some (OK, sz,
               ?s4\<lparr>content := mem_put (content ?s4) (dest + (m + k))
                               (take (sz - (m + k)) (drop (src + (m + k)) (content ?s4))),
                 pos := p', sched := sch'\<rparr>)"
      using less.hyps[of "m + k" ?s4] less.prems(3,4) km by blast
    have "drop (src + (m + k)) c4 = drop (src + (m + k)) c"
      unfolding c4_def using less.prems(4) dl by (intro drop_mem_put_above) simp
    then have "mem_put c4 (dest + (m + k)) (take (sz - (m + k)) (drop (src + (m + k)) c4))
        = mem_put (mem_put c (dest + m) data) (dest + m + length data)
            (take (sz - (m + k)) (drop (src + m + k) c))"
      using dl by (simp add: add.assoc c4_def)
    also have "\<dots> = mem_put c (dest + m) (data @ take (sz - (m + k)) (drop (src + m + k) c))"
      by (rule mem_put_forwards)
    also have "data @ take (sz - (m + k)) (drop (src + m + k) c)
                 = take (k + (sz - (m + k))) (drop (src + m) c)"
      unfolding data_def by (rule take_take_drop)
    also have "k + (sz - (m + k)) = sz - m" using km by simp
    finally have ceq: "mem_put c4 (dest + (m + k)) (take (sz - (m + k)) (drop (src + (m + k)) c4))
        = mem_put c (dest + m) (take (sz - m) (drop (src + m) c))" .
    have "move_forwards bufsz MemFile src dest sz m s
           = Some (OK, sz,
               s\<lparr>content := mem_put c (dest + m) (take (sz - m) (drop (src + m) c)),
                 pos := p', sched := sch'\<rparr>)"
      using step R ceq by simp
    then show ?thesis unfolding c_def by blast
  qed
qed


lemma mem_move_backwards:
  assumes "seekable s" and "\<forall>x\<in>set (sched s). no_fail x" and "0 < bufsz" and "src < dest"
    and "src + sz \<le> length (content s)" and "dest + sz \<le> cap s" and "m \<le> sz"
  shows "\<exists>p' sch'. move_backwards bufsz MemFile src dest sz m s
           = Some (OK, sz,
               s\<lparr>content := mem_put (content s) dest (take (sz - m) (drop src (content s))),
                 pos := p', sched := sch'\<rparr>)"
  using assms
proof (induction "sz - m" arbitrary: m s rule: less_induct)
  case less
  show ?case
  proof (cases "m < sz")
    case False
    then have "m = sz" using less.prems by simp
    then have "move_backwards bufsz MemFile src dest sz m s = Some (OK, sz, s)"
      by (subst move_backwards.simps) simp
    moreover have "s = s\<lparr>content := mem_put (content s) dest
                               (take (sz - m) (drop src (content s))),
                 pos := pos s, sched := sched s\<rparr>"
      using \<open>m = sz\<close> by simp
    ultimately show ?thesis by metis
  next
    case True
    define c where "c = content s"
    define k where "k = min bufsz (sz - m)"
    define r where "r = sz - m - k"
    define data where "data = take k (drop (src + r) c)"
    have k0: "0 < k" and km: "m + k \<le> sz" using True less.prems by (simp_all add: k_def)
    have rk: "r + k = sz - m" using km by (simp add: r_def)
    have kl: "src + r + k \<le> length c" using less.prems rk by (simp add: c_def)
    have dl: "length data = k" using kl by (simp add: data_def)
    have dne: "data \<noteq> []" using dl k0 by auto
    have capc: "dest + sz \<le> cap s" using less.prems by simp
    have p1: "src + sz - (m + k) = src + r" using km by (simp add: r_def)
    have p2: "dest + sz - (m + k) = dest + r" using km by (simp add: r_def)
    let ?s1 = "s\<lparr>pos := src + r\<rparr>"
    have sk1: "mem_seek s (src + r) = (OK, ?s1)" using less.prems by (simp add: mem_seek_def)
    have "\<forall>x\<in>set (sched ?s1). no_fail x" using less.prems by simp
    from mem_file_read_fully[OF this, of k] obtain sch1 where
      rd: "file_read_fully MemFile ?s1 k
             = Some (OK, data, s\<lparr>pos := src + r + k, sched := sch1\<rparr>)"
      and nf1: "\<forall>x\<in>set sch1. no_fail x"
      using dl by (auto simp: data_def c_def)
    let ?s2 = "s\<lparr>pos := src + r + k, sched := sch1\<rparr>"
    let ?s3 = "s\<lparr>pos := dest + r, sched := sch1\<rparr>"
    have sk2: "mem_seek ?s2 (dest + r) = (OK, ?s3)" using less.prems by (simp add: mem_seek_def)
    have "\<forall>x\<in>set (sched ?s3). no_fail x" using nf1 by simp
    moreover have "pos ?s3 + length data \<le> cap ?s3" using rk km dl capc by simp
    ultimately obtain sch2 where
      wr: "file_write_fully MemFile ?s3 data
             = Some (OK, k, s\<lparr>content := mem_put c (dest + r) data,
                                 pos := dest + r + k, sched := sch2\<rparr>)"
      and nf2: "\<forall>x\<in>set sch2. no_fail x"
      using mem_file_write_fully[of ?s3 data] dl by (auto simp: c_def)
    define c4 where "c4 = mem_put c (dest + r) data"
    let ?s4 = "s\<lparr>content := c4, pos := dest + r + k, sched := sch2\<rparr>"
    have len4: "length c \<le> length c4"
      by (simp add: c4_def length_mem_put)
    have step: "move_backwards bufsz MemFile src dest sz m s
                  = move_backwards bufsz MemFile src dest sz (m + k) ?s4"
      using True sk1 rd sk2 wr dl dne
      by (subst move_backwards.simps) (simp add: k_def[symmetric] p1 p2 c4_def)
    have "sz - (m + k) < sz - m" using k0 True by simp
    moreover have "seekable ?s4" using less.prems by simp
    moreover have "\<forall>x\<in>set (sched ?s4). no_fail x" using nf2 by simp
    moreover have "src + sz \<le> length (content ?s4)" using len4 less.prems by (simp add: c_def)
    moreover have "dest + sz \<le> cap ?s4" using capc by simp
    ultimately obtain p' sch' where
      R: "move_backwards bufsz MemFile src dest sz (m + k) ?s4
           = Some (OK, sz,
               ?s4\<lparr>content := mem_put (content ?s4) dest
                               (take (sz - (m + k)) (drop src (content ?s4))),
                 pos := p', sched := sch'\<rparr>)"
      using less.hyps[of "m + k" ?s4] less.prems(3,4) km by blast
    have r': "sz - (m + k) = r" by (simp add: r_def)
    have "take (src + r) c4 = take (src + r) c"
      unfolding c4_def using less.prems(4) kl by (intro take_mem_put_below) simp_all
    then have "drop src (take (src + r) c4) = drop src (take (src + r) c)" by simp
    then have tk: "take r (drop src c4) = take r (drop src c)" by (simp add: drop_take)
    have lr: "length (take r (drop src c)) = r" using kl by simp
    have "mem_put c4 dest (take r (drop src c4))
        = mem_put (mem_put c (dest + length (take r (drop src c))) data) dest (take r (drop src c))"
      using tk lr by (simp add: c4_def)
    also have "\<dots> = mem_put c dest (take r (drop src c) @ data)"
      by (rule mem_put_backwards)
    also have "take r (drop src c) @ data = take (r + k) (drop src c)"
      unfolding data_def by (rule take_take_drop)
    finally have ceq: "mem_put c4 dest (take r (drop src c4))
        = mem_put c dest (take (sz - m) (drop src c))" using rk by simp
    have "move_backwards bufsz MemFile src dest sz m s
           = Some (OK, sz,
               s\<lparr>content := mem_put c dest (take (sz - m) (drop src c)),
                 pos := p', sched := sch'\<rparr>)"
      using step R ceq r' by simp
    then show ?thesis unfolding c_def by blast
  qed
qed


lemma whole_move_eq:
  assumes "src + sz \<le> length c"
  shows "whole_move c src dest sz = mem_put c dest (take sz (drop src c))"
proof (cases "sz = 0")
  case True
  then show ?thesis by (simp add: whole_move_def)
next
  case False
  have dl: "length (take sz (drop src c)) = sz" using assms by simp
  have dne: "take sz (drop src c) \<noteq> []" using dl False by auto
  show ?thesis
  proof (rule nth_equalityI)
    show "length (whole_move c src dest sz) = length (mem_put c dest (take sz (drop src c)))"
      using False dl dne by (simp add: whole_move_def length_mem_put del: length_take)
  next
    fix i assume "i < length (whole_move c src dest sz)"
    then have i: "i < max (length c) (dest + sz)" using False by (simp add: whole_move_def)
    then have i': "i < length (mem_put c dest (take sz (drop src c)))"
      using dl dne by (simp add: length_mem_put del: length_take)
    have "whole_move c src dest sz ! i
            = (if dest \<le> i \<and> i < dest + sz then c ! (src + (i - dest))
               else if i < length c then c ! i else 0)"
      using i False by (simp add: whole_move_def del: upt_Suc)
    moreover have "mem_put c dest (take sz (drop src c)) ! i
            = (if dest \<le> i \<and> i < dest + sz then take sz (drop src c) ! (i - dest)
               else if i < length c then c ! i else 0)"
      using nth_mem_put[OF i'] dne dl by (simp del: length_take)
    moreover have "take sz (drop src c) ! (i - dest) = c ! (src + (i - dest))"
      if "dest \<le> i \<and> i < dest + sz"
    proof -
      have "i - dest < sz" using that by linarith
      then have "take sz (drop src c) ! (i - dest) = drop src c ! (i - dest)" by simp
      also have "\<dots> = c ! (src + (i - dest))"
        using assms \<open>i - dest < sz\<close> by (intro nth_drop) linarith
      finally show ?thesis .
    qed
    ultimately show "whole_move c src dest sz ! i = mem_put c dest (take sz (drop src c)) ! i"
      by simp
  qed
qed

lemma whole_move_demo:
  "whole_move [1, 2, 3, 4, 5, 6, 7, 8, 9, 10] 0 2 8 = [1, 2, 1, 2, 3, 4, 5, 6, 7, 8]"
  by (simp add: whole_move_def upt_rec[of 0] upt_rec[of "Suc _"])

text \<open>
  Claim C1. On a seekable scripted handle whose script holds retries and short transfers
  only, whose content holds the whole source range and whose capacity holds the whole
  destination range, \<open>file_move\<close> returns \<open>OK\<close> with \<open>size_moved = size\<close> and leaves the
  content that the whole-buffer move with \<open>memmove\<close> semantics gives, also when the ranges
  overlap. This holds for every chunk size above zero in place of \<open>sizeof(buf)\<close>. The
  copy runs through the forward loop when \<open>dest < src\<close> and through the backward loop when
  \<open>dest > src\<close>.
\<close>

theorem file_move_is_memmove:
  assumes "seekable s" and "\<forall>x\<in>set (sched s). no_fail x" and "0 < bufsz"
    and "src + sz \<le> length (content s)" and "dest + sz \<le> cap s"
    and "length (content s) \<le> UINT64_MAX" and "cap s \<le> UINT64_MAX"
  shows "(\<exists>p' sch'. file_move_chunked bufsz MemFile s src dest sz size_moved0
            = Some (OK, sz, s\<lparr>content := whole_move (content s) src dest sz,
                                 pos := p', sched := sch'\<rparr>))
       \<and> (\<exists>p' sch'. file_move MemFile s src dest sz size_moved0
            = Some (OK, sz, s\<lparr>content := whole_move (content s) src dest sz,
                                 pos := p', sched := sch'\<rparr>))
       \<and> (dest < src \<and> 0 < sz \<longrightarrow>
            file_move_chunked bufsz MemFile s src dest sz size_moved0
              = move_forwards bufsz MemFile src dest sz 0 s)
       \<and> (src < dest \<and> 0 < sz \<longrightarrow>
            file_move_chunked bufsz MemFile s src dest sz size_moved0
              = move_backwards bufsz MemFile src dest sz 0 s)"
proof -
  have nov: "\<not> (src > UINT64_MAX - sz \<or> dest > UINT64_MAX - sz)" using assms(4-7) by linarith
  have main: "\<exists>p' sch'. file_move_chunked b MemFile s src dest sz size_moved0
            = Some (OK, sz, s\<lparr>content := whole_move (content s) src dest sz,
                                 pos := p', sched := sch'\<rparr>)" if b: "0 < b" for b
  proof (cases "src = dest \<or> sz = 0")
    case True
    have "whole_move (content s) src dest sz = content s"
    proof (cases "sz = 0")
      case True then show ?thesis by (simp add: whole_move_def)
    next
      case False
      then have "src = dest" using True by simp
      then show ?thesis using whole_move_eq[OF assms(4), of dest] mem_put_same[OF assms(4)]
        by (simp add: add.commute)
    qed
    then have "s = s\<lparr>content := whole_move (content s) src dest sz,
                       pos := pos s, sched := sched s\<rparr>" by simp
    moreover have "file_move_chunked b MemFile s src dest sz size_moved0 = Some (OK, sz, s)"
      using True by (simp add: file_move_chunked_def)
    ultimately show ?thesis by metis
  next
    case False
    show ?thesis
    proof (cases "dest < src")
      case True
      from mem_move_forwards[OF assms(1,2) b True assms(4,5), of 0] obtain p' sch' where
        "move_forwards b MemFile src dest sz 0 s
           = Some (OK, sz, s\<lparr>content := mem_put (content s) dest (take sz (drop src (content s))),
                 pos := p', sched := sch'\<rparr>)"
        by auto
      then have "file_move_chunked b MemFile s src dest sz size_moved0
           = Some (OK, sz, s\<lparr>content := whole_move (content s) src dest sz,
                 pos := p', sched := sch'\<rparr>)"
        using False nov True by (simp add: file_move_chunked_def whole_move_eq[OF assms(4)])
      then show ?thesis by blast
    next
      case F2: False
      then have lt: "src < dest" using False by simp
      from mem_move_backwards[OF assms(1,2) b lt assms(4,5), of 0] obtain p' sch' where
        "move_backwards b MemFile src dest sz 0 s
           = Some (OK, sz, s\<lparr>content := mem_put (content s) dest (take sz (drop src (content s))),
                 pos := p', sched := sch'\<rparr>)"
        by auto
      then have "file_move_chunked b MemFile s src dest sz size_moved0
           = Some (OK, sz, s\<lparr>content := whole_move (content s) src dest sz,
                 pos := p', sched := sch'\<rparr>)"
        using False nov F2 by (simp add: file_move_chunked_def whole_move_eq[OF assms(4)])
      then show ?thesis by blast
    qed
  qed
  have 1: "\<exists>p' sch'. file_move_chunked bufsz MemFile s src dest sz size_moved0
            = Some (OK, sz, s\<lparr>content := whole_move (content s) src dest sz,
                                 pos := p', sched := sch'\<rparr>)"
    using main[OF assms(3)] .
  have 2: "\<exists>p' sch'. file_move MemFile s src dest sz size_moved0
            = Some (OK, sz, s\<lparr>content := whole_move (content s) src dest sz,
                                 pos := p', sched := sch'\<rparr>)"
    using main[of 10240] by (simp add: file_move_def)
  have 3: "dest < src \<and> 0 < sz \<longrightarrow>
            file_move_chunked bufsz MemFile s src dest sz size_moved0
              = move_forwards bufsz MemFile src dest sz 0 s"
    using nov by (auto simp: file_move_chunked_def)
  have 4: "src < dest \<and> 0 < sz \<longrightarrow>
            file_move_chunked bufsz MemFile s src dest sz size_moved0
              = move_backwards bufsz MemFile src dest sz 0 s"
    using nov by (auto simp: file_move_chunked_def)
  show ?thesis using 1 2 3 4 by blast
qed

theorem file_move_is_memmove_witness:
  "(\<exists>p' sch'. file_move_chunked 3 MemFile
        (demo_file [1, 2, 3, 4, 5, 6, 7, 8, 9, 10] [Again, AtMost 0]) 0 2 8 0
      = Some (OK, 8, (demo_file [1, 2, 3, 4, 5, 6, 7, 8, 9, 10] [Again, AtMost 0])
                       \<lparr>content := [1, 2, 1, 2, 3, 4, 5, 6, 7, 8], pos := p', sched := sch'\<rparr>))
   \<and> (\<exists>p' sch'. file_move MemFile
        ((demo_file (map of_nat [0 ..< 20480]) [])\<lparr>cap := 20480\<rparr>) 0 10 20470 0
      = Some (OK, 20470, (demo_file (map of_nat [0 ..< 20480]) [])
                       \<lparr>content := whole_move (map of_nat [0 ..< 20480]) 0 10 20470,
                         pos := p', cap := 20480, sched := sch'\<rparr>))"
proof -
  let ?s = "demo_file [1, 2, 3, 4, 5, 6, 7, 8, 9, 10] [Again, AtMost 0]"
  let ?b = "(demo_file (map of_nat [0 ..< 20480]) [])\<lparr>cap := 20480\<rparr>"
  have "\<exists>p' sch'. file_move_chunked 3 MemFile ?s 0 2 8 0
      = Some (OK, 8, ?s\<lparr>content := whole_move (content ?s) 0 2 8, pos := p', sched := sch'\<rparr>)"
    by (rule file_move_is_memmove[of ?s 3 0 8 2, THEN conjunct1])
       (simp_all add: demo_file_def UINT64_MAX_def)
  then have 1: "\<exists>p' sch'. file_move_chunked 3 MemFile ?s 0 2 8 0
      = Some (OK, 8, ?s\<lparr>content := [1, 2, 1, 2, 3, 4, 5, 6, 7, 8], pos := p', sched := sch'\<rparr>)"
    using whole_move_demo by (simp add: demo_file_def)
  have "\<exists>p' sch'. file_move MemFile ?b 0 10 20470 0
      = Some (OK, 20470, ?b\<lparr>content := whole_move (content ?b) 0 10 20470, pos := p', sched := sch'\<rparr>)"
    by (rule file_move_is_memmove[of ?b 1 0 20470 10, THEN conjunct2, THEN conjunct1])
       (simp_all add: demo_file_def UINT64_MAX_def)
  then have 2: "\<exists>p' sch'. file_move MemFile ?b 0 10 20470 0
      = Some (OK, 20470, (demo_file (map of_nat [0 ..< 20480]) [])
                       \<lparr>content := whole_move (map of_nat [0 ..< 20480]) 0 10 20470,
                         pos := p', cap := 20480, sched := sch'\<rparr>)"
    by (simp add: demo_file_def)
  show ?thesis using 1 2 by blast
qed

subsection \<open>The whole scan on the scripted handle\<close>

lemma length_searched: "length (searched c e) \<le> length c"
  by (simp add: searched_def)

lemma take_length_take: "take (length (take m xs)) xs = take m xs"
  by (simp add: min_def)

lemma search_loop_run:
  assumes pne: "pat \<noteq> []" and ok: "answers cb f" and bs: "length pat \<le> buf_size"
    and lim: "length c \<le> UINT64_MAX"
    and "content s = c" and "\<forall>x\<in>set (sched s). no_fail x"
    and "pos s = offset + length kept" and "kept = take (length kept) (drop offset c)"
    and "length kept < length pat" and "mm \<noteq> 0"
  shows "\<exists>s' u'. search_loop MemFile e pat (traced cb) buf_size kept offset mm s (u, tr)
            = Some (fst (ref_run f mm (ref_matches (searched c e) pat offset) tr), s',
                    (u', snd (ref_run f mm (ref_matches (searched c e) pat offset) tr)))
          \<and> content s' = c"
  using assms(5-10)
proof (induction "length c - offset" arbitrary: kept offset mm s u tr rule: less_induct)
  case less
  define p where "p = length pat"
  define req where "req = buf_size - length kept"
  define data where "data = take req (drop (pos s) c)"
  define buf where "buf = kept @ data"
  define n where "n = length buf"
  define L where "L = searched c e"
  have p0: "0 < p" using pne by (simp add: p_def)
  from mem_file_read_fully[OF less.prems(2), of req] obtain sch1 where
    rd: "file_read_fully MemFile s (buf_size - length kept)
           = Some (OK, data, s\<lparr>pos := pos s + length data, sched := sch1\<rparr>)"
    and nf1: "\<forall>x\<in>set sch1. no_fail x"
    unfolding data_def req_def less.prems(1) by blast
  define s1 where "s1 = s\<lparr>pos := pos s + length data, sched := sch1\<rparr>"
  have c1: "content s1 = c" using less.prems(1) by (simp add: s1_def)
  have dtk: "data = take (length data) (drop (offset + length kept) c)"
    unfolding data_def less.prems(3) by (simp only: take_length_take)
  have bufeq: "buf = take n (drop offset c)"
  proof -
    have "buf = take (length kept) (drop offset c)
                 @ take (length data) (drop (offset + length kept) c)"
      unfolding buf_def using less.prems(4) dtk by simp
    also have "\<dots> = take (length kept + length data) (drop offset c)"
      by (rule take_take_drop)
    finally have b: "kept @ data = take (length kept + length data) (drop offset c)"
      unfolding buf_def .
    show ?thesis unfolding n_def buf_def length_append by (rule b)
  qed
  have nL: "\<not> lt_OK OK" by simp
  note eq = search_loop.simps[of MemFile e pat "traced cb" buf_size kept offset mm s "(u, tr)"]
  note eq1 = eq[unfolded rd option.case prod.case if_not_P[OF nL], folded buf_def s1_def]
  have empty: ?case if stop: "search_loop MemFile e pat (traced cb) buf_size kept offset mm s (u, tr)
                        = Some (OK, s1, (u, tr))"
      and none: "ref_matches L pat offset = []"
  proof -
    have "ref_run f mm (ref_matches (searched c e) pat offset) tr = (OK, tr)"
      using none unfolding L_def by simp
    then show ?thesis using stop c1 by simp
  qed
  show ?case
  proof (cases "length buf < length pat")
    case True
    have stop: "search_loop MemFile e pat (traced cb) buf_size kept offset mm s (u, tr)
                        = Some (OK, s1, (u, tr))"
      using eq1[unfolded if_P[OF True]] .
    have "length data < req" using True bs unfolding buf_def req_def by simp
    then have "length (drop (pos s) c) < req" unfolding data_def by simp
    then have "length data = length c - pos s" unfolding data_def by simp
    then have "length c - offset \<le> length kept + length data" using less.prems(3) by simp
    then have "length c < offset + length pat" using True unfolding buf_def by simp
    then have "length L < offset + length pat"
      using length_searched[of c e] unfolding L_def by linarith
    then have "ref_matches L pat offset = []" by (rule ref_matches_end)
    with stop show ?thesis by (rule empty)
  next
    case False
    then have np: "p \<le> n" unfolding n_def p_def by simp
    have "data \<noteq> []" using np less.prems(5) unfolding n_def buf_def p_def by auto
    then have "pos s < length c" unfolding data_def by (cases "pos s < length c") simp_all
    then have fit: "offset + n \<le> length c"
      unfolding n_def buf_def data_def using less.prems(3) by simp
    note eq2 = eq1[unfolded if_not_P[OF False]]
    show ?thesis
    proof (cases "e \<ge> 0 \<and> offset \<ge> nat e")
      case True
      have stop: "search_loop MemFile e pat (traced cb) buf_size kept offset mm s (u, tr)
                        = Some (OK, s1, (u, tr))"
        using eq2[unfolded if_P[OF True]] .
      have "length L \<le> nat e" using True unfolding L_def searched_def by simp
      then have "length L < offset + length pat" using True p0 unfolding p_def by linarith
      then have "ref_matches L pat offset = []" by (rule ref_matches_end)
      with stop show ?thesis by (rule empty)
    next
      case F2: False
      have F3: "\<not> length buf > UINT64_MAX - offset"
        using fit lim unfolding n_def by linarith
      note eq3 = eq2[unfolded if_not_P[OF F2] if_not_P[OF F3]]
      have mm0: "mm \<noteq> 0" using less.prems(6) .
      from search_matches_run[OF pne ok bufeq fit, of 0 mm e s1 u tr] mm0 obtain ex where
        inner: "search_matches buf offset e pat (traced cb) 0 (length buf) mm s1 (u, tr) = Some ex"
        and post: "run_post c pat e f offset n mm offset s1 tr ex"
        unfolding n_def by auto
      note eq4 = eq3[unfolded inner option.case]
      show ?thesis
      proof (cases ex)
        case (Done r s' ut')
        have s': "s' = s1"
          and tr': "(r, snd ut') = ref_run f mm (ref_matches (searched c e) pat offset) tr"
          using post unfolding run_post_def Done search_exit.case by simp_all
        have "search_loop MemFile e pat (traced cb) buf_size kept offset mm s (u, tr)
                = Some (r, s1, (fst ut', snd ut'))"
          using eq4[unfolded Done search_exit.case] s' by simp
        moreover have "fst (ref_run f mm (ref_matches (searched c e) pat offset) tr) = r"
          "snd (ref_run f mm (ref_matches (searched c e) pat offset) tr) = snd ut'"
          using tr'[symmetric] by simp_all
        ultimately show ?thesis using c1
          by (intro exI[of _ s1] exI[of _ "fst ut'"]) simp
      next
        case (Refill mr' mm' s' ut')
        from post[unfolded run_post_def Refill search_exit.case] have
          f: "s' = s1" "mr' \<le> n" "mm' \<noteq> 0"
            "ref_run f mm'
                (ref_matches (searched c e) pat (offset + (n - min mr' (length pat - 1))))
                (snd ut')
              = ref_run f mm (ref_matches (searched c e) pat offset) tr"
          by blast+
        define tm where "tm = min mr' (length pat - 1)"
        define kept' where "kept' = drop (length buf - tm) buf"
        define offset' where "offset' = offset + (length buf - tm)"
        have tmn: "tm \<le> n" and tmp: "tm < p" using f(2) p0 unfolding tm_def p_def by linarith+
        have rec: "search_loop MemFile e pat (traced cb) buf_size kept offset mm s (u, tr)
                = search_loop MemFile e pat (traced cb) buf_size kept' offset' mm' s1
                    (fst ut', snd ut')"
          using eq4[unfolded Refill search_exit.case, folded tm_def, folded kept'_def offset'_def]
            f(1) by simp
        have lk: "length kept' = tm" using tmn unfolding kept'_def n_def by simp
        have k': "kept' = take (length kept') (drop offset' c)"
        proof -
          have "kept' = drop (n - tm) (take n (drop offset c))"
            unfolding kept'_def using bufeq unfolding n_def by simp
          also have "\<dots> = take tm (drop (n - tm) (drop offset c))"
            using tmn by (simp add: drop_take)
          also have "\<dots> = take tm (drop offset' c)"
            unfolding offset'_def n_def by (simp add: add.commute)
          finally show ?thesis using lk by simp
        qed
        have pos1: "pos s1 = offset' + length kept'"
          using less.prems(3) tmn lk unfolding s1_def offset'_def n_def buf_def by simp
        have dec: "length c - offset' < length c - offset"
          using fit np tmp tmn p0 unfolding offset'_def n_def by linarith
        have nfs1: "\<forall>x\<in>set (sched s1). no_fail x" using nf1 unfolding s1_def by simp
        have kl': "length kept' < length pat" using lk tmp unfolding p_def by simp
        from less.hyps[OF dec c1 nfs1 pos1 k' kl' f(3), of "fst ut'" "snd ut'"]
        obtain s'' u'' where
          R: "search_loop MemFile e pat (traced cb) buf_size kept' offset' mm' s1 (fst ut', snd ut')
                = Some (fst (ref_run f mm' (ref_matches (searched c e) pat offset') (snd ut')), s'',
                    (u'', snd (ref_run f mm' (ref_matches (searched c e) pat offset') (snd ut'))))"
          and cs: "content s'' = c"
          by blast
        have "ref_run f mm' (ref_matches (searched c e) pat offset') (snd ut')
                = ref_run f mm (ref_matches (searched c e) pat offset) tr"
          using f(4) unfolding offset'_def tm_def n_def .
        then show ?thesis using rec R cs by auto
      qed
    qed
  qed
qed

lemma search_matches_budget:
  assumes "search_matches buf offset e pattern rcb match mr mm s ut = Some ex"
  shows "\<forall>cb. rcb = traced cb \<longrightarrow> 0 < mm \<longrightarrow> budget_post (length (snd ut)) mm ex"
proof (rule search_matches.raw_induct
    [where P = "\<lambda>buf offset e pattern rcb match mr mm s ut ex.
        \<forall>cb. rcb = traced cb \<longrightarrow> 0 < mm \<longrightarrow> budget_post (length (snd ut)) mm ex",
     OF _ assms])
  fix f :: "byte list \<Rightarrow> nat \<Rightarrow> int \<Rightarrow> byte list \<Rightarrow>
            ('a, 'b \<times> (nat \<times> FileStatus) list) FileSearchResultCallback \<Rightarrow>
            nat \<Rightarrow> nat \<Rightarrow> int \<Rightarrow> 'a \<Rightarrow> 'b \<times> (nat \<times> FileStatus) list \<Rightarrow>
            ('a, 'b \<times> (nat \<times> FileStatus) list) search_exit option"
  fix buf offset e pattern rcb match mr mm s ut ex
  assume IH: "\<And>buf offset e pattern rcb match mr mm s ut ex.
      f buf offset e pattern rcb match mr mm s ut = Some ex \<Longrightarrow>
        \<forall>cb. rcb = traced cb \<longrightarrow> 0 < mm \<longrightarrow> budget_post (length (snd ut)) mm ex"
    and step: "(case mb_memmem (take mr (drop match buf)) pattern of
        None \<Rightarrow> Some (Refill mr mm s ut)
      | Some i \<Rightarrow>
          if e \<ge> 0 \<and> int (offset + (match + i) + length pattern) > e
          then Some (Done OK s ut)
          else
            (case rcb s ut (offset + (match + i)) of (ret, s', u') \<Rightarrow>
               if ret = WARN then Some (Done OK s' u')
               else if lt_OK ret then Some (Done ret s' u')
               else if mm > 0 \<and> mm - 1 = 0 then Some (Done ret s' u')
               else if mr \<ge> length pattern
               then f buf offset e pattern rcb
                      (match + i + length pattern)
                      (length buf - (match + i + length pattern))
                      (if mm > 0 then mm - 1 else mm) s' u'
               else Some (Refill mr
                      (if mm > 0 then mm - 1 else mm) s' u'))) = Some ex"
  show "\<forall>cb. rcb = traced cb \<longrightarrow> 0 < mm \<longrightarrow> budget_post (length (snd ut)) mm ex"
  proof (intro allI impI)
    fix cb
    assume rcb: "rcb = traced cb" and mm: "0 < mm"
    let ?k = "length (snd ut)"
    show "budget_post ?k mm ex"
    proof (cases "mb_memmem (take mr (drop match buf)) pattern")
      case None
      then have "ex = Refill mr mm s ut" using step by simp
      then show ?thesis using mm by (simp add: budget_post_def)
    next
      case (Some i)
      let ?off = "offset + (match + i)"
      show ?thesis
      proof (cases "e \<ge> 0 \<and> int (?off + length pattern) > e")
        case True
        then have "ex = Done OK s ut" using step Some by simp
        then show ?thesis by (simp add: budget_post_def)
      next
        case False
        obtain ret s' u' where cbr: "cb s (fst ut) ?off = (ret, s', u')"
          by (cases "cb s (fst ut) ?off") auto
        let ?tr' = "snd ut @ [(?off, ret)]"
        have call: "rcb s ut ?off = (ret, s', (u', ?tr'))"
          using rcb cbr by (simp add: traced_def)
        note s1 = step[unfolded Some option.case if_not_P[OF False] call prod.case]
        have one: "length ?tr' \<le> ?k + nat mm" using mm by simp
        show ?thesis
        proof (cases "ret = WARN \<or> lt_OK ret \<or> (mm > 0 \<and> mm - 1 = 0)")
          case True
          then have "\<exists>r. ex = Done r s' (u', ?tr')" using s1 by (auto split: if_splits)
          then show ?thesis using one by (auto simp: budget_post_def)
        next
          case cont: False
          then have nw: "ret \<noteq> WARN" and nl: "\<not> lt_OK ret"
            and nb: "\<not> (mm > 0 \<and> mm - 1 = 0)" by blast+
          have mm1: "0 < mm - 1" using mm nb by simp
          note s2 = s1[unfolded if_not_P[OF nw] if_not_P[OF nl] if_not_P[OF nb] if_P[OF mm]]
          show ?thesis
          proof (cases "mr \<ge> length pattern")
            case True
            have "f buf offset e pattern rcb (match + i + length pattern)
                    (length buf - (match + i + length pattern)) (mm - 1) s' (u', ?tr') = Some ex"
              using s2[unfolded if_P[OF True]] .
            from IH[OF this, rule_format, OF rcb mm1]
            have "budget_post (length ?tr') (mm - 1) ex" by simp
            moreover have "length ?tr' + nat (mm - 1) = ?k + nat mm" using mm by simp
            ultimately show ?thesis
              by (cases ex) (simp_all add: budget_post_def)
          next
            case F3: False
            have "ex = Refill mr (mm - 1) s' (u', ?tr')"
              using s2[unfolded if_not_P[OF F3]] by simp
            then show ?thesis using mm mm1 by (simp add: budget_post_def)
          qed
        qed
      qed
    qed
  qed
qed

lemma search_loop_budget:
  assumes "search_loop F e pattern rcb buf_size kept offset mm s ut = Some r"
  shows "\<forall>cb. rcb = traced cb \<longrightarrow> 0 < mm \<longrightarrow>
           length (snd (snd (snd r))) \<le> length (snd ut) + nat mm"
proof (rule search_loop.raw_induct
    [where P = "\<lambda>F e pattern rcb buf_size kept offset mm s ut r.
        \<forall>cb. rcb = traced cb \<longrightarrow> 0 < mm \<longrightarrow>
           length (snd (snd (snd r))) \<le> length (snd ut) + nat mm",
     OF _ assms])
  fix f :: "'a File \<Rightarrow> int \<Rightarrow> byte list \<Rightarrow>
            ('a, 'b \<times> (nat \<times> FileStatus) list) FileSearchResultCallback \<Rightarrow> nat \<Rightarrow>
            byte list \<Rightarrow> nat \<Rightarrow> int \<Rightarrow> 'a \<Rightarrow> 'b \<times> (nat \<times> FileStatus) list \<Rightarrow>
            (FileStatus \<times> 'a \<times> 'b \<times> (nat \<times> FileStatus) list) option"
  fix F e pattern rcb buf_size kept offset mm s ut r
  assume IH: "\<And>F e pattern rcb buf_size kept offset mm s ut r.
      f F e pattern rcb buf_size kept offset mm s ut = Some r \<Longrightarrow>
        \<forall>cb. rcb = traced cb \<longrightarrow> 0 < mm \<longrightarrow>
           length (snd (snd (snd r))) \<le> length (snd ut) + nat mm"
    and step: "(case file_read_fully F s (buf_size - length kept) of
        None \<Rightarrow> None
      | Some (ret, data, s1) \<Rightarrow>
          if lt_OK ret then Some (ret, s1, ut)
          else if length (kept @ data) < length pattern then Some (ret, s1, ut)
          else if e \<ge> 0 \<and> offset \<ge> nat e then Some (ret, s1, ut)
          else if length (kept @ data) > UINT64_MAX - offset
          then Some (FAILED, File_set_error F s1 INTERNAL_ERROR, ut)
          else
            (case search_matches (kept @ data) offset e pattern rcb
                    0 (length (kept @ data)) mm s1 ut of
               None \<Rightarrow> None
             | Some (Done r s2 u2) \<Rightarrow> Some (r, s2, u2)
             | Some (Refill match_remain mm s2 u2) \<Rightarrow>
                 f F e pattern rcb buf_size
                   (drop (length (kept @ data) - min match_remain (length pattern - 1))
                      (kept @ data))
                   (offset + (length (kept @ data) - min match_remain (length pattern - 1)))
                   mm s2 u2)) = Some r"
  show "\<forall>cb. rcb = traced cb \<longrightarrow> 0 < mm \<longrightarrow>
           length (snd (snd (snd r))) \<le> length (snd ut) + nat mm"
  proof (intro allI impI)
    fix cb
    assume rcb: "rcb = traced cb" and mm: "0 < mm"
    show "length (snd (snd (snd r))) \<le> length (snd ut) + nat mm"
    proof (cases "file_read_fully F s (buf_size - length kept)")
      case None
      then show ?thesis using step by simp
    next
      case (Some a)
      obtain ret data s1 where a: "a = (ret, data, s1)" by (cases a) auto
      let ?buf = "kept @ data"
      note s1 = step[unfolded Some a option.case prod.case]
      show ?thesis
      proof (cases "lt_OK ret \<or> length ?buf < length pattern \<or> (e \<ge> 0 \<and> offset \<ge> nat e)
                    \<or> length ?buf > UINT64_MAX - offset")
        case True
        then have "snd (snd r) = ut" using s1 by (auto split: if_splits)
        then show ?thesis by simp
      next
        case False
        then have c1: "\<not> lt_OK ret" and c2: "\<not> length ?buf < length pattern"
          and c3: "\<not> (e \<ge> 0 \<and> offset \<ge> nat e)"
          and c4: "\<not> length ?buf > UINT64_MAX - offset" by blast+
        note s2 = s1[unfolded if_not_P[OF c1] if_not_P[OF c2] if_not_P[OF c3] if_not_P[OF c4]]
        show ?thesis
        proof (cases "search_matches ?buf offset e pattern rcb 0 (length ?buf) mm s1 ut")
          case None
          then show ?thesis using s2 by simp
        next
          case (Some ex)
          from search_matches_budget[OF Some, rule_format, OF rcb mm]
          have post: "budget_post (length (snd ut)) mm ex" .
          show ?thesis
          proof (cases ex)
            case (Done r' s2' u2)
            then have "r = (r', s2', u2)" using s2 Some by simp
            then show ?thesis using post Done by (simp add: budget_post_def)
          next
            case (Refill mr mm' s2' u2)
            have rec: "f F e pattern rcb buf_size
                   (drop (length ?buf - min mr (length pattern - 1)) ?buf)
                   (offset + (length ?buf - min mr (length pattern - 1))) mm' s2' u2 = Some r"
              using s2 Some Refill by simp
            have b: "0 < mm' \<and> length (snd u2) + nat mm' = length (snd ut) + nat mm"
              using post unfolding Refill budget_post_def search_exit.case .
            from IH[OF rec, rule_format, OF rcb] b show ?thesis by simp
          qed
        qed
      qed
    qed
  qed
qed

lemma file_search_budget:
  assumes "file_search F malloc s start e bsize pattern k (traced cb) (u, []) = Some (st, s', (u', tr))"
    and "0 < k"
  shows "length tr \<le> nat k"
proof -
  have loop: "length tr \<le> nat k"
    if "search_loop F e pattern (traced cb) b [] off k s2 (u, []) = Some (st, s', (u', tr))"
    for s2 b off
    using search_loop_budget[OF that, rule_format, OF refl assms(2)] by simp
  have "tr = [] \<or> (\<exists>b off s2. search_loop F e pattern (traced cb) b [] off k s2 (u, [])
                        = Some (st, s', (u', tr)))"
    using assms(1) unfolding file_search_def file_search_scan_def Let_def
    by (auto split: if_splits prod.splits option.splits)
  then show ?thesis using loop by auto
qed

lemma mem_read_discard_loop:
  assumes "\<forall>x\<in>set (sched s). no_fail x"
    and "d + (length (content s) - pos s) \<le> UINT64_MAX"
  shows "\<exists>n s'. read_discard_loop MemFile s sz d = Some (OK, n, s')
           \<and> content s' = content s \<and> pos s' = pos s + (n - d) \<and> d \<le> n
           \<and> (\<forall>x\<in>set (sched s'). no_fail x)
           \<and> (n < sz \<longrightarrow> length (content s) \<le> pos s')
           \<and> n - d \<le> length (content s) - pos s"
  using assms
proof (induction "length (sched s) + (length (content s) - pos s)" arbitrary: s d rule: less_induct)
  case less
  note eq = read_discard_loop.simps[of MemFile s sz d]
  show ?case
  proof (cases "d < sz")
    case False
    have "read_discard_loop MemFile s sz d = Some (OK, d, s)"
      using eq[unfolded if_not_P[OF False]] .
    then show ?thesis using less.prems(1) False by simp
  next
    case True
    note eq1 = eq[unfolded if_P[OF True] MemFile_simps]
    have chunk: ?thesis
      if rd: "mem_read s (min sz 10240) = (OK, data, s\<lparr>pos := pos s + length data, sched := rest\<rparr>)"
        and dl: "length data \<le> length (content s) - pos s"
        and rest: "set rest \<subseteq> set (sched s)" "length rest \<le> length (sched s)"
        and eof: "data = [] \<longrightarrow> length (content s) \<le> pos s"
      for data rest
    proof (cases "length data = 0")
      case T: True
      have nR: "OK \<noteq> RETRY" and nL: "\<not> lt_OK OK" by simp_all
      have "read_discard_loop MemFile s sz d
              = Some (OK, d, s\<lparr>pos := pos s + length data, sched := rest\<rparr>)"
        using eq1[unfolded rd prod.case if_not_P[OF nR] if_not_P[OF nL] if_P[OF T]] .
      then show ?thesis using T rest(1) less.prems(1) eof by auto
    next
      case F: False
      define s1 where "s1 = s\<lparr>pos := pos s + length data, sched := rest\<rparr>"
      define d1 where "d1 = (d + length data) mod 2 ^ 64"
      have nR: "OK \<noteq> RETRY" and nL: "\<not> lt_OK OK" by simp_all
      have step: "read_discard_loop MemFile s sz d = read_discard_loop MemFile s1 sz d1"
        using eq1[unfolded rd prod.case if_not_P[OF nR] if_not_P[OF nL] if_not_P[OF F]]
        unfolding s1_def d1_def .
      have "d + length data \<le> UINT64_MAX" using less.prems(2) dl by linarith
      then have "d + length data < 2 ^ 64" by (simp add: UINT64_MAX_def)
      then have d1: "d1 = d + length data" unfolding d1_def by simp
      have l0: "0 < length data" using F by simp
      have "length (content s) - (pos s + length data) < length (content s) - pos s"
        using l0 dl by linarith
      then have dec: "length (sched s1) + (length (content s1) - pos s1)
                   < length (sched s) + (length (content s) - pos s)"
        using rest(2) unfolding s1_def by simp
      have nf1: "\<forall>x\<in>set (sched s1). no_fail x"
        using less.prems(1) rest(1) unfolding s1_def by auto
      have lim1: "d1 + (length (content s1) - pos s1) \<le> UINT64_MAX"
        using less.prems(2) dl unfolding d1 s1_def by simp
      from less.hyps[OF dec nf1 lim1] obtain n s' where
        R: "read_discard_loop MemFile s1 sz d1 = Some (OK, n, s')"
        and P: "content s' = content s1" "pos s' = pos s1 + (n - d1)" "d1 \<le> n"
          "\<forall>x\<in>set (sched s'). no_fail x" "n < sz \<longrightarrow> length (content s1) \<le> pos s'"
          "n - d1 \<le> length (content s1) - pos s1"
        by blast
      have "n < sz \<longrightarrow> length (content s) \<le> pos s'" using P(5) unfolding s1_def by simp
      moreover have "n - d \<le> length (content s) - pos s"
        using P(6) dl unfolding s1_def d1 by simp
      moreover have "content s' = content s" using P(1) unfolding s1_def by simp
      moreover have "pos s' = pos s + (n - d)" using P(2,3) unfolding s1_def d1 by simp
      moreover have "d \<le> n" using P(3) unfolding d1 by simp
      ultimately show ?thesis using step R P(4) by simp
    qed
    show ?thesis
    proof (cases "sched s")
      case Nil
      define data where "data = take (min sz 10240) (drop (pos s) (content s))"
      have rd: "mem_read s (min sz 10240)
              = (OK, data, s\<lparr>pos := pos s + length data, sched := []\<rparr>)"
        using Nil unfolding data_def by (simp add: mem_read_def mem_file_same)
      have dl: "length data \<le> length (content s) - pos s" unfolding data_def by simp
      have e0: "data = [] \<longrightarrow> length (content s) \<le> pos s"
        using True unfolding data_def by auto
      show ?thesis by (rule chunk[OF rd dl _ _ e0]) (simp_all add: Nil)
    next
      case (Cons x rest)
      show ?thesis
      proof (cases x)
        case Again
        define s1 where "s1 = s\<lparr>sched := rest\<rparr>"
        have rd: "mem_read s (min sz 10240) = (RETRY, [], s1)"
          using Cons Again by (simp add: mem_read_def s1_def)
        have step: "read_discard_loop MemFile s sz d = read_discard_loop MemFile s1 sz d"
          using eq1[unfolded rd prod.case] by simp
        have dec: "length (sched s1) + (length (content s1) - pos s1)
                   < length (sched s) + (length (content s) - pos s)"
          using Cons unfolding s1_def by simp
        have nf1: "\<forall>x\<in>set (sched s1). no_fail x"
          using less.prems(1) Cons unfolding s1_def by simp
        have lim1: "d + (length (content s1) - pos s1) \<le> UINT64_MAX"
          using less.prems(2) unfolding s1_def by simp
        from less.hyps[OF dec nf1 lim1] obtain n s' where
          R: "read_discard_loop MemFile s1 sz d = Some (OK, n, s')"
          and P: "content s' = content s1" "pos s' = pos s1 + (n - d)" "d \<le> n"
            "\<forall>x\<in>set (sched s'). no_fail x" "n < sz \<longrightarrow> length (content s1) \<le> pos s'"
            "n - d \<le> length (content s1) - pos s1"
          by blast
        show ?thesis using step R P unfolding s1_def by simp
      next
        case (AtMost k)
        define data where "data = take (min (min sz 10240) (Suc k)) (drop (pos s) (content s))"
        have rd: "mem_read s (min sz 10240)
              = (OK, data, s\<lparr>pos := pos s + length data, sched := rest\<rparr>)"
          using Cons AtMost unfolding data_def by (simp add: mem_read_def)
        have dl: "length data \<le> length (content s) - pos s" unfolding data_def by simp
        have e0: "data = [] \<longrightarrow> length (content s) \<le> pos s"
          using True unfolding data_def by auto
        show ?thesis by (rule chunk[OF rd dl _ _ e0]) (auto simp: Cons)
      next
        case (Fail st)
        then show ?thesis using less.prems(1) Cons by simp
      qed
    qed
  qed
qed

lemma ref_run_all_ok:
  assumes "\<forall>j\<in>set ms. f j = OK" and "mm \<noteq> 0"
  shows "ref_run f mm ms tr = (OK, tr @ map (\<lambda>j. (j, OK)) (take_budget mm ms))"
  using assms
proof (induction ms arbitrary: mm tr)
  case Nil
  then show ?case by (simp add: take_budget_def)
next
  case (Cons j js)
  have fj: "f j = OK" using Cons.prems(1) by simp
  show ?case
  proof (cases "mm > 0 \<and> mm - 1 = 0")
    case True
    then show ?thesis using fj take_budget_one[OF True, of j js] by simp
  next
    case False
    define mm' where "mm' = (if mm > 0 then mm - 1 else mm)"
    have mm'0: "mm' \<noteq> 0" using False Cons.prems(2) unfolding mm'_def by auto
    have nW: "f j \<noteq> WARN" and nL: "\<not> lt_OK (f j)" using fj by simp_all
    have "ref_run f mm (j # js) tr = ref_run f mm' js (tr @ [(j, f j)])"
      using ref_run.simps(2)[of f mm j js tr,
          unfolded if_not_P[OF nW] if_not_P[OF nL] if_not_P[OF False]]
      unfolding mm'_def .
    then have "ref_run f mm (j # js) tr = ref_run f mm' js (tr @ [(j, OK)])"
      unfolding fj .
    also have "\<dots> = (OK, (tr @ [(j, OK)]) @ map (\<lambda>j. (j, OK)) (take_budget mm' js))"
      using Cons.IH[OF _ mm'0] Cons.prems(1) by simp
    finally show ?thesis
      using take_budget_Cons[OF Cons.prems(2) False, of j js] unfolding mm'_def by simp
  qed
qed

lemma ref_run_stop:
  assumes "\<forall>x\<in>set pre. f x = OK" and "lt_OK (f j)" and "mm < 0 \<or> length pre < nat mm"
  shows "ref_run f mm (pre @ j # post) tr
           = (if f j = WARN then OK else f j, tr @ map (\<lambda>x. (x, OK)) pre @ [(j, f j)])"
  using assms(1,3)
proof (induction pre arbitrary: mm tr)
  case Nil
  then show ?case using assms(2) by simp
next
  case (Cons x xs)
  have fx: "f x = OK" using Cons.prems(1) by simp
  define mm' where "mm' = (if mm > 0 then mm - 1 else mm)"
  have nb: "\<not> (mm > 0 \<and> mm - 1 = 0)" using Cons.prems(2) by auto
  have b': "mm' < 0 \<or> length xs < nat mm'" using Cons.prems(2) unfolding mm'_def by auto
  have nW: "f x \<noteq> WARN" and nL: "\<not> lt_OK (f x)" using fx by simp_all
  have "ref_run f mm (x # (xs @ j # post)) tr = ref_run f mm' (xs @ j # post) (tr @ [(x, f x)])"
    using ref_run.simps(2)[of f mm x "xs @ j # post" tr,
        unfolded if_not_P[OF nW] if_not_P[OF nL] if_not_P[OF nb]]
    unfolding mm'_def .
  then have "ref_run f mm ((x # xs) @ j # post) tr = ref_run f mm' (xs @ j # post) (tr @ [(x, OK)])"
    unfolding fx by simp
  also have "\<dots> = (if f j = WARN then OK else f j,
                    (tr @ [(x, OK)]) @ map (\<lambda>x. (x, OK)) xs @ [(j, f j)])"
    using Cons.IH[OF _ b'] Cons.prems(1) by simp
  finally show ?case by simp
qed

lemma ok_cb_answers: "ok_cb cb \<Longrightarrow> answers cb (\<lambda>off. OK)"
  by (simp add: ok_cb_def answers_def)

lemma answer_cb_answers: "answers (answer_cb f) f"
  by (simp add: answers_def answer_cb_def)

lemma ref_matches_Nil: "ref_matches c [] i = []"
  by (subst ref_matches.simps) simp

lemma file_search_run:
  assumes nf: "\<forall>x\<in>set (sched m). no_fail x" and ok: "answers cb f" and k0: "k \<noteq> 0"
    and range: "\<not> (0 \<le> start \<and> 0 \<le> e \<and> e < start)"
    and bs: "bsize = 0 \<or> length pattern \<le> bsize" and pmax: "length pattern \<le> SIZE_MAX"
    and mal: "malloc (if bsize \<noteq> 0 then bsize
                      else if length pattern > SIZE_MAX div 2 then SIZE_MAX
                      else max DEFAULT_BUFFER_SIZE (length pattern * 2))"
    and lim: "length (content m) \<le> UINT64_MAX"
    and skip: "skips_to m (if 0 \<le> start then nat start else 0)"
  shows "\<exists>m' u'. file_search MemFile malloc m start e bsize pattern k (traced cb) (u, [])
            = Some (fst (ref_run f k (total_matches (content m) pattern start e) []), m',
                    (u', snd (ref_run f k (total_matches (content m) pattern start e) [])))
          \<and> content m' = content m"
proof (cases "pattern = []")
  case True
  have "file_search MemFile malloc m start e bsize pattern k (traced cb) (u, []) = Some (OK, m, (u, []))"
    using True range by (simp add: file_search_def)
  moreover have "total_matches (content m) pattern start e = []"
    using True by (simp add: total_matches_def ref_matches_Nil)
  ultimately show ?thesis by simp
next
  case pne: False
  define B where "B = (if bsize \<noteq> 0 then bsize
                      else if length pattern > SIZE_MAX div 2 then SIZE_MAX
                      else max DEFAULT_BUFFER_SIZE (length pattern * 2))"
  define off where "off = (if start \<ge> 0 then nat start else 0)"
  define R where "R = ref_run f k (ref_matches (searched (content m) e) pattern off) []"
  have B: "length pattern \<le> B" using bs pmax unfolding B_def by auto
  have nB: "\<not> B < length pattern" using B by simp
  have mB: "malloc B" using mal unfolding B_def .
  have p0: "\<not> (k = 0 \<or> length pattern = 0)" using k0 pne by simp
  have fs: "file_search MemFile malloc m start e bsize pattern k (traced cb) (u, [])
          = file_search_scan MemFile e pattern (traced cb) B off k m (u, [])"
    unfolding file_search_def if_not_P[OF range] if_not_P[OF p0] Let_def
      B_def[symmetric] off_def[symmetric] if_not_P[OF nB]
    using mB by simp
  have tm: "total_matches (content m) pattern start e
          = ref_matches (searched (content m) e) pattern off"
    by (simp add: total_matches_def off_def)
  have loop: "\<exists>s' u'. search_loop MemFile e pattern (traced cb) B [] off k m2 (u, [])
            = Some (fst R, s', (u', snd R)) \<and> content s' = content m"
    if "content m2 = content m" "\<forall>x\<in>set (sched m2). no_fail x" "pos m2 = off" for m2
    unfolding R_def
    by (rule search_loop_run[OF pne ok B lim]) (use that pne k0 in simp_all)
  have "\<exists>m2. file_search_scan MemFile e pattern (traced cb) B off k m (u, [])
          = search_loop MemFile e pattern (traced cb) B [] off k m2 (u, [])
        \<and> content m2 = content m \<and> (\<forall>x\<in>set (sched m2). no_fail x) \<and> pos m2 = off"
  proof (cases "seekable m")
    case True
    have sk: "File_seek MemFile m off = (OK, m\<lparr>pos := off\<rparr>)"
      using True by (simp add: mem_seek_def)
    have "file_search_scan MemFile e pattern (traced cb) B off k m (u, [])
          = search_loop MemFile e pattern (traced cb) B [] off k (m\<lparr>pos := off\<rparr>) (u, [])"
      unfolding file_search_scan_def sk prod.case by simp
    then show ?thesis using nf by (intro exI[of _ "m\<lparr>pos := off\<rparr>"]) simp
  next
    case False
    have sk: "File_seek MemFile m off = (UNSUPPORTED, m)"
      using False by (simp add: mem_seek_def)
    from skip False have pos0: "pos m = 0"
      and sk2: "case file_read_discard MemFile m off of
               Some (st, n, m') \<Rightarrow> \<not> lt_OK st \<and> n = off | None \<Rightarrow> False"
      unfolding skips_to_def off_def by simp_all
    have "0 + (length (content m) - pos m) \<le> UINT64_MAX" using lim by simp
    from mem_read_discard_loop[OF nf this, of off] obtain n m2 where
      rd: "file_read_discard MemFile m off = Some (OK, n, m2)"
      and P: "content m2 = content m" "pos m2 = pos m + (n - 0)"
        "\<forall>x\<in>set (sched m2). no_fail x"
      unfolding file_read_discard_def by blast
    have n: "n = off" using sk2 unfolding rd by simp
    have "file_search_scan MemFile e pattern (traced cb) B off k m (u, [])
          = search_loop MemFile e pattern (traced cb) B [] off k m2 (u, [])"
      unfolding file_search_scan_def sk prod.case rd option.case n by simp
    then show ?thesis using P pos0 n by (intro exI[of _ m2]) simp
  qed
  then obtain m2 where
    sc: "file_search_scan MemFile e pattern (traced cb) B off k m (u, [])
          = search_loop MemFile e pattern (traced cb) B [] off k m2 (u, [])"
    and m2: "content m2 = content m" "\<forall>x\<in>set (sched m2). no_fail x" "pos m2 = off"
    by blast
  show ?thesis unfolding fs sc tm R_def[symmetric] by (rule loop[OF m2])
qed

lemma length_take_budget:
  "0 < k \<Longrightarrow> length (take_budget k xs) = min (nat k) (length xs)"
  by (simp add: take_budget_def)

lemma file_search_short:
  assumes nf: "\<forall>x\<in>set (sched m). no_fail x" and ns: "\<not> seekable m" and p0: "pos m = 0"
    and k0: "k \<noteq> 0" and pne: "pattern \<noteq> []"
    and range: "\<not> (0 \<le> start \<and> 0 \<le> e \<and> e < start)"
    and bs: "bsize = 0 \<or> length pattern \<le> bsize" and pmax: "length pattern \<le> SIZE_MAX"
    and mal: "malloc (if bsize \<noteq> 0 then bsize
                      else if length pattern > SIZE_MAX div 2 then SIZE_MAX
                      else max DEFAULT_BUFFER_SIZE (length pattern * 2))"
    and lim: "length (content m) \<le> UINT64_MAX"
    and short: "int (length (content m)) < start"
  shows "(\<exists>m'. file_search MemFile malloc m start e bsize pattern k cb u = Some (FATAL, m', u))
       \<and> total_matches (content m) pattern start e = []"
proof -
  define B where "B = (if bsize \<noteq> 0 then bsize
                      else if length pattern > SIZE_MAX div 2 then SIZE_MAX
                      else max DEFAULT_BUFFER_SIZE (length pattern * 2))"
  define off where "off = (if start \<ge> 0 then nat start else 0)"
  have offn: "off = nat start" and lo: "length (content m) < off"
    using short unfolding off_def by auto
  have B: "length pattern \<le> B" using bs pmax unfolding B_def by auto
  have nB: "\<not> B < length pattern" using B by simp
  have mB: "malloc B" using mal unfolding B_def .
  have pk: "\<not> (k = 0 \<or> length pattern = 0)" using k0 pne by simp
  have fs: "file_search MemFile malloc m start e bsize pattern k cb u
          = file_search_scan MemFile e pattern cb B off k m u"
    unfolding file_search_def if_not_P[OF range] if_not_P[OF pk] Let_def
      B_def[symmetric] off_def[symmetric] if_not_P[OF nB]
    using mB by simp
  have sk: "File_seek MemFile m off = (UNSUPPORTED, m)"
    using ns by (simp add: mem_seek_def)
  have "0 + (length (content m) - pos m) \<le> UINT64_MAX" using lim by simp
  from mem_read_discard_loop[OF nf this, of off] obtain n m2 where
    rd: "file_read_discard MemFile m off = Some (OK, n, m2)"
    and P: "n - 0 \<le> length (content m) - pos m"
    unfolding file_read_discard_def by blast
  have n: "n \<noteq> off" using P lo by simp
  have "file_search_scan MemFile e pattern cb B off k m u
          = Some (FATAL, File_set_error MemFile m2 INVALID_ARGUMENT, u)"
    unfolding file_search_scan_def sk prod.case rd option.case using n by simp
  then have 1: "\<exists>m'. file_search MemFile malloc m start e bsize pattern k cb u = Some (FATAL, m', u)"
    unfolding fs by blast
  have "length (searched (content m) e) < off + length pattern"
    using length_searched[of "content m" e] lo by linarith
  then have "ref_matches (searched (content m) e) pattern off = []" by (rule ref_matches_end)
  then have 2: "total_matches (content m) pattern start e = []"
    unfolding total_matches_def off_def .
  show ?thesis using 1 2 by blast
qed

lemma skips_to_seekable: "seekable m \<Longrightarrow> skips_to m off"
  by (simp add: skips_to_def)

lemma skips_to_one_read:
  assumes "pos m = 0" and "sched m = []" and "off \<le> 10240" and "off \<le> length (content m)"
  shows "skips_to m off"
proof (cases "off = 0")
  case True
  then show ?thesis using assms(1) unfolding skips_to_def file_read_discard_def
    by (subst read_discard_loop.simps) simp
next
  case False
  define d where "d = take off (content m)"
  have ld: "length d = off" using assms(4) unfolding d_def by simp
  have rd: "mem_read m (min off 10240) = (OK, d, m\<lparr>pos := off\<rparr>)"
    using assms(1,2,3) ld unfolding d_def by (simp add: mem_read_def min_def)
  have dne: "d \<noteq> []" using ld False by auto
  have "read_discard_loop MemFile m off 0
          = read_discard_loop MemFile (m\<lparr>pos := off\<rparr>) off (off mod 2 ^ 64)"
    using False rd ld dne by (subst read_discard_loop.simps) simp
  moreover have "off mod 2 ^ 64 = off" using assms(3) by simp
  moreover have "read_discard_loop MemFile (m\<lparr>pos := off\<rparr>) off off
                   = Some (OK, off, m\<lparr>pos := off\<rparr>)"
    by (subst read_discard_loop.simps) simp
  ultimately show ?thesis using assms(1) unfolding skips_to_def file_read_discard_def by simp
qed

lemma skips_to_start: "pos m = 0 \<Longrightarrow> skips_to m 0"
  unfolding skips_to_def file_read_discard_def
  by (subst read_discard_loop.simps) simp

lemma file_search_ready:
  assumes "search_ready m malloc start e bsize pattern" and "answers cb f" and "k \<noteq> 0"
  shows "\<exists>m' u'. file_search MemFile malloc m start e bsize pattern k (traced cb) (u, [])
            = Some (fst (ref_run f k (total_matches (content m) pattern start e) []), m',
                    (u', snd (ref_run f k (total_matches (content m) pattern start e) [])))
          \<and> content m' = content m"
  using assms(1) unfolding search_ready_def search_args_ok_def
  by (intro file_search_run[OF _ assms(2,3)]) simp_all

lemma file_search_all_ok:
  assumes "search_ready m malloc start e bsize pattern" and "ok_cb cb" and "k \<noteq> 0"
  shows "\<exists>m' u' tr. file_search MemFile malloc m start e bsize pattern k (traced cb) (u, [])
            = Some (OK, m', (u', tr))
          \<and> tr = map (\<lambda>j. (j, OK)) (take_budget k (total_matches (content m) pattern start e))"
proof -
  have a: "answers cb (\<lambda>off. OK)" using assms(2) by (rule ok_cb_answers)
  have r: "ref_run (\<lambda>off. OK) k (total_matches (content m) pattern start e) []
         = (OK, [] @ map (\<lambda>j. (j, OK)) (take_budget k (total_matches (content m) pattern start e)))"
    by (rule ref_run_all_ok) (simp_all add: assms(3))
  from file_search_ready[OF assms(1) a assms(3), of u] obtain m' u' where
    "file_search MemFile malloc m start e bsize pattern k (traced cb) (u, [])
       = Some (OK, m', (u', map (\<lambda>j. (j, OK))
                  (take_budget k (total_matches (content m) pattern start e))))"
    unfolding r by auto
  then show ?thesis by (intro exI[of _ m'] exI[of _ u']) simp
qed

lemma file_search_ends:
  assumes "file_search F malloc s start e bsize pattern max_matches (traced cb) (u, [])
             = Some (st, s', (u', tr))"
    and "0 \<le> e"
  shows "\<forall>x\<in>set tr. int (fst x + length pattern) \<le> e"
proof -
  have "list_all (\<lambda>x. 0 \<le> e \<longrightarrow> int (fst x + length pattern) \<le> e) tr"
    using file_search_trace[OF assms(1)] by (simp add: trace_final_def)
  then show ?thesis using assms(2) by (simp add: list_all_iff)
qed

section \<open>The search on the scripted handle: end offset, callback statuses and budget\<close>

text \<open>
  Claim C4. With an end offset that is not negative, every offset that \<open>file_search\<close> has
  passed to the callback when it returns is the start of a match that ends at or before the
  end, on any handle and with any callback. When the inner loop finds a match that ends
  behind the end, it leaves with \<open>OK\<close> and with the handle and the user data as they were:
  the callback is not called for it. On the scripted handle, with arguments that pass the
  checks, reads that do not fail and a callback that always returns \<open>OK\<close>, \<open>file_search\<close>
  returns, its status is \<open>OK\<close>, and its calls are exactly the matches, as far as the budget
  goes, of the bytes in front of the end: an occurrence of the pattern that ends behind the
  end is not reported, and the search that meets it ends with success.
\<close>

theorem search_respects_end:
  "(file_search F malloc s start e bsize pattern max_matches (traced cb) (u, [])
        = Some (st, s', (u', tr)) \<and> 0 \<le> e \<longrightarrow>
      (\<forall>x\<in>set tr. int (fst x + length pattern) \<le> e))
   \<and> (0 \<le> e \<longrightarrow>
        (\<forall>buf offset rcb match match_remain mm t ut i.
            mb_memmem (take match_remain (drop match buf)) pattern = Some i
            \<and> e < int (offset + (match + i) + length pattern) \<longrightarrow>
            search_matches buf offset e pattern rcb match match_remain mm (t :: 't) (ut :: 'v)
              = Some (Done OK t ut)))
   \<and> (search_ready m malloc start e bsize pattern \<and> ok_cb cbm \<and> max_matches \<noteq> 0
        \<and> 0 \<le> e \<longrightarrow>
        (\<exists>m' w' trm.
            file_search MemFile malloc m start e bsize pattern max_matches (traced cbm) (w, [])
              = Some (OK, m', (w', trm))
          \<and> map fst trm
              = take_budget max_matches
                  (ref_matches (take (nat e) (content m)) pattern
                     (if 0 \<le> start then nat start else 0))
          \<and> (\<forall>x\<in>set trm. int (fst x + length pattern) \<le> e)
          \<and> (\<forall>j. occurs_at (content m) pattern j \<and> e < int (j + length pattern) \<longrightarrow>
                 j \<notin> set (map fst trm))))"
proof -
  have 1: "file_search F malloc s start e bsize pattern max_matches (traced cb) (u, [])
        = Some (st, s', (u', tr)) \<and> 0 \<le> e \<longrightarrow>
      (\<forall>x\<in>set tr. int (fst x + length pattern) \<le> e)"
    using file_search_ends[of F malloc s start e bsize pattern max_matches cb u st s' u' tr]
    by blast
  have 2: "0 \<le> e \<longrightarrow>
        (\<forall>buf offset rcb match match_remain mm t ut i.
            mb_memmem (take match_remain (drop match buf)) pattern = Some i
            \<and> e < int (offset + (match + i) + length pattern) \<longrightarrow>
            search_matches buf offset e pattern rcb match match_remain mm (t :: 't) (ut :: 'v)
              = Some (Done OK t ut))"
  proof (intro impI allI)
    fix buf offset match match_remain mm i
      and rcb :: "('t, 'v) FileSearchResultCallback" and t :: 't and ut :: 'v
    assume "0 \<le> e" and "mb_memmem (take match_remain (drop match buf)) pattern = Some i
            \<and> e < int (offset + (match + i) + length pattern)"
    then show "search_matches buf offset e pattern rcb match match_remain mm t ut
              = Some (Done OK t ut)"
      by (subst search_matches.simps) simp
  qed
  have 3: "\<exists>m' w' trm.
            file_search MemFile malloc m start e bsize pattern max_matches (traced cbm) (w, [])
              = Some (OK, m', (w', trm))
          \<and> map fst trm
              = take_budget max_matches
                  (ref_matches (take (nat e) (content m)) pattern
                     (if 0 \<le> start then nat start else 0))
          \<and> (\<forall>x\<in>set trm. int (fst x + length pattern) \<le> e)
          \<and> (\<forall>j. occurs_at (content m) pattern j \<and> e < int (j + length pattern) \<longrightarrow>
                 j \<notin> set (map fst trm))"
    if h: "search_ready m malloc start e bsize pattern \<and> ok_cb cbm \<and> max_matches \<noteq> 0
        \<and> 0 \<le> e"
  proof -
    from h have h1: "search_ready m malloc start e bsize pattern" and h2: "ok_cb cbm"
      and h3: "max_matches \<noteq> 0" and h4: "0 \<le> e" by simp_all
    from file_search_all_ok[OF h1 h2 h3, of w]
    obtain m' w' trm where
      run: "file_search MemFile malloc m start e bsize pattern max_matches (traced cbm) (w, [])
            = Some (OK, m', (w', trm))"
      and tr: "trm = map (\<lambda>j. (j, OK))
                  (take_budget max_matches (total_matches (content m) pattern start e))"
      by blast
    have mf: "map fst trm
              = take_budget max_matches
                  (ref_matches (take (nat e) (content m)) pattern
                     (if 0 \<le> start then nat start else 0))"
      unfolding tr total_matches_def searched_def using h4 by (simp add: comp_def)
    have b: "\<forall>x\<in>set trm. int (fst x + length pattern) \<le> e"
      by (rule file_search_ends[OF run h4])
    have "j \<notin> set (map fst trm)" if "e < int (j + length pattern)" for j
    proof
      assume "j \<in> set (map fst trm)"
      then obtain x where "x \<in> set trm" "fst x = j" by auto
      then show False using b that by auto
    qed
    then show ?thesis using run mf b by blast
  qed
  show ?thesis
    apply (intro conjI)
      apply (rule 1)
     apply (rule 2)
    apply (rule impI, erule 3)
    done
qed

theorem search_respects_end_witness:
  "file_search MemFile (\<lambda>n. True) (demo_file [1, 2, 1, 2, 1, 2, 1, 2, 1, 2] []) (-1) 7 5
      [1, 2, 1, 2] (-1) (traced (answer_cb (\<lambda>off. OK))) (0, [])
     = Some (OK, (demo_file [1, 2, 1, 2, 1, 2, 1, 2, 1, 2] [])\<lparr>pos := 9\<rparr>, (1, [(0, OK)]))
   \<and> list_all (\<lambda>x. int (fst x + length [1, 2, 1, 2 :: byte]) \<le> 7) [(0 :: nat, OK)]
   \<and> search_matches [1, 2, 1, 2, 1, 2 :: byte] 2 7 [1, 2, 1, 2]
        (traced (answer_cb (\<lambda>off. OK))) 2 4 (-1) (demo_file [] []) (1 :: nat, [(0, OK)])
     = Some (Done OK (demo_file [] []) (1, [(0, OK)]))
   \<and> occurs_at [1, 2, 1, 2, 1, 2, 1, 2, 1, 2] [1, 2, 1, 2] 4
   \<and> (\<exists>m' w' trm.
        file_search MemFile (\<lambda>n. True) (demo_file [1, 2, 1, 2, 1, 2, 1, 2, 1, 2] [AtMost 2])
            (-1) 7 5 [1, 2, 1, 2] (-1) (traced (answer_cb (\<lambda>off. OK))) (0, [])
          = Some (OK, m', (w', trm))
        \<and> map fst trm = [0] \<and> 4 \<notin> set (map fst trm))"
proof -
  let ?D = "demo_file [1, 2, 1, 2, 1, 2, 1, 2, 1, 2] []"
  let ?E = "demo_file [1, 2, 1, 2, 1, 2, 1, 2, 1, 2] [AtMost 2]"
  note T = search_respects_end
    [where F = MemFile and malloc = "\<lambda>n. True" and s = ?D and start = "-1" and e = 7
       and bsize = 5 and pattern = "[1, 2, 1, 2]" and max_matches = "-1"
       and cb = "answer_cb (\<lambda>off. OK)" and u = 0
       and m = ?E and cbm = "answer_cb (\<lambda>off. OK)" and w = 0]
  have run: "file_search MemFile (\<lambda>n. True) ?D
      (-1) 7 5 [1, 2, 1, 2] (-1) (traced (answer_cb (\<lambda>off. OK))) (0, [])
     = Some (OK, ?D\<lparr>pos := 9\<rparr>, (1, [(0, OK)]))"
    by (simp add: search_eval mem_eval)
  have e: "(0 :: int) \<le> 7" by simp
  have 1: "list_all (\<lambda>x. int (fst x + length [1, 2, 1, 2 :: byte]) \<le> 7) [(0 :: nat, OK)]"
    using T[THEN conjunct1, THEN mp, OF conjI[OF run e]] by (simp add: list_all_iff)
  have m: "mb_memmem (take 4 (drop 2 [1, 2, 1, 2, 1, 2 :: byte])) [1, 2, 1, 2] = Some 0
            \<and> (7 :: int) < int (2 + (2 + 0) + length [1, 2, 1, 2 :: byte])"
    by simp
  have 2: "search_matches [1, 2, 1, 2, 1, 2 :: byte] 2 7 [1, 2, 1, 2]
        (traced (answer_cb (\<lambda>off. OK))) 2 4 (-1) (demo_file [] []) (1 :: nat, [(0, OK)])
     = Some (Done OK (demo_file [] []) (1, [(0, OK)]))"
    using T[THEN conjunct2, THEN conjunct1, THEN mp, OF e, rule_format, OF m] .
  have occ: "occurs_at [1, 2, 1, 2, 1, 2, 1, 2, 1, 2] [1, 2, 1, 2 :: byte] 4"
    by (simp add: occurs_at_def)
  have rdy: "search_ready ?E (\<lambda>n. True) (-1) 7 5 [1, 2, 1, 2]
      \<and> ok_cb (answer_cb (\<lambda>off. OK) :: (mem_file, nat) FileSearchResultCallback)
      \<and> (-1 :: int) \<noteq> 0 \<and> (0 :: int) \<le> 7"
    by (simp add: search_ready_def search_args_ok_def skips_to_def ok_cb_def answer_cb_def
        SIZE_MAX_def mem_eval)
  have cE: "content ?E = [1, 2, 1, 2, 1, 2, 1, 2, 1, 2]" by (simp add: demo_file_def)
  have rm: "ref_matches (take (nat 7) [1, 2, 1, 2, 1, 2, 1, 2, 1, 2]) [1, 2, 1, 2 :: byte]
              (if (0 :: int) \<le> -1 then nat (-1) else 0) = [0]"
    by (simp add: ref_matches.simps)
  from T[THEN conjunct2, THEN conjunct2, THEN mp, OF rdy] obtain m' w' trm where
    r3: "file_search MemFile (\<lambda>n. True) ?E (-1) 7 5 [1, 2, 1, 2] (-1)
           (traced (answer_cb (\<lambda>off. OK))) (0, []) = Some (OK, m', (w', trm))"
    and mf: "map fst trm = take_budget (-1) [0]"
    and no: "\<forall>j. occurs_at [1, 2, 1, 2, 1, 2, 1, 2, 1, 2] [1, 2, 1, 2] j
               \<and> 7 < int (j + length [1, 2, 1, 2 :: byte]) \<longrightarrow> j \<notin> set (map fst trm)"
    unfolding cE rm by blast
  have "4 \<notin> set (map fst trm)" using no[rule_format, of 4] occ by simp
  moreover have "map fst trm = [0]" using mf by (simp add: take_budget_def)
  ultimately have 3: "\<exists>m' w' trm.
        file_search MemFile (\<lambda>n. True) ?E
            (-1) 7 5 [1, 2, 1, 2] (-1) (traced (answer_cb (\<lambda>off. OK))) (0, [])
          = Some (OK, m', (w', trm))
        \<and> map fst trm = [0] \<and> 4 \<notin> set (map fst trm)"
    using r3 by (intro exI[of _ m'] exI[of _ w'] exI[of _ trm]) simp
  from run 1 2 occ 3 show ?thesis by (intro conjI)
qed

text \<open>
  Claim C5. In the trace of a search that has returned, on any handle and with any
  callback, a call that answered \<open>WARN\<close> is the last call and the search has returned \<open>OK\<close>;
  a call that answered another status below \<open>OK\<close> is the last call and the search has
  returned that status. The inner loop leaves at once in both cases, with what the callback
  made of the handle and the user data. On the scripted handle, with arguments that pass
  the checks, reads that do not fail and a callback that answers \<open>OK\<close> for the matches
  \<open>pre\<close> and a status below \<open>OK\<close> for the next match \<open>j\<close>, within the budget, \<open>file_search\<close>
  returns: its calls are those for \<open>pre\<close> and the one for \<open>j\<close>, none for the matches \<open>post\<close>
  that follow, and its status is \<open>OK\<close> when the answer for \<open>j\<close> was \<open>WARN\<close> and the answer
  for \<open>j\<close> otherwise. The callback answers by the offset, \<open>f off\<close>; the offsets of the
  matches differ, so every sequence of answers along the matches is the one of some \<open>f\<close>.
\<close>

theorem search_callback_stops:
  "(file_search F malloc s start e bsize pattern max_matches (traced cb) (u, [])
        = Some (st, s', (u', tr)) \<longrightarrow>
      (\<forall>i<length tr.
           (snd (tr ! i) = WARN \<longrightarrow> Suc i = length tr \<and> st = OK)
         \<and> (lt_OK (snd (tr ! i)) \<and> snd (tr ! i) \<noteq> WARN \<longrightarrow>
               Suc i = length tr \<and> st = snd (tr ! i))))
   \<and> (\<forall>buf offset rcb match match_remain mm t ut i ret t' ut'.
            mb_memmem (take match_remain (drop match buf)) pattern = Some i
            \<and> \<not> (0 \<le> e \<and> e < int (offset + (match + i) + length pattern))
            \<and> rcb t ut (offset + (match + i)) = (ret, t', ut')
            \<and> (ret = WARN \<or> lt_OK ret) \<longrightarrow>
            search_matches buf offset e pattern rcb match match_remain mm (t :: 't) (ut :: 'v)
              = Some (Done (if ret = WARN then OK else ret) t' ut'))
   \<and> (search_ready m malloc start e bsize pattern \<and> answers cbm f \<and> max_matches \<noteq> 0
        \<and> total_matches (content m) pattern start e = pre @ j # post
        \<and> (\<forall>x\<in>set pre. f x = OK) \<and> lt_OK (f j)
        \<and> (max_matches < 0 \<or> length pre < nat max_matches) \<longrightarrow>
        (\<exists>m' w'.
            file_search MemFile malloc m start e bsize pattern max_matches (traced cbm) (w, [])
              = Some (if f j = WARN then OK else f j, m',
                      (w', map (\<lambda>x. (x, OK)) pre @ [(j, f j)]))))"
proof -
  have 1: "(snd (tr ! i) = WARN \<longrightarrow> Suc i = length tr \<and> st = OK)
         \<and> (lt_OK (snd (tr ! i)) \<and> snd (tr ! i) \<noteq> WARN \<longrightarrow>
               Suc i = length tr \<and> st = snd (tr ! i))"
    if run: "file_search F malloc s start e bsize pattern max_matches (traced cb) (u, [])
        = Some (st, s', (u', tr))" and i: "i < length tr" for i
  proof (cases "Suc i = length tr")
    case True
    have fin: "trace_final (length pattern) e tr st" using file_search_trace[OF run] .
    have ne: "tr \<noteq> []" using i by auto
    from True have "i = length tr - 1" by simp
    then have "tr ! i = last tr" using ne by (simp add: last_conv_nth)
    then show ?thesis using fin ne True by (simp add: trace_final_def)
  next
    case False
    have fin: "trace_final (length pattern) e tr st" using file_search_trace[OF run] .
    from False have "i < length (butlast tr)" using i by simp
    then have "butlast tr ! i \<in> set (butlast tr)" by (rule nth_mem)
    moreover have "butlast tr ! i = tr ! i"
      using \<open>i < length (butlast tr)\<close> by (simp add: nth_butlast)
    ultimately have "snd (tr ! i) \<noteq> WARN \<and> \<not> lt_OK (snd (tr ! i))"
      using fin by (auto simp: trace_final_def list_all_iff)
    then show ?thesis by simp
  qed
  have 2: "\<forall>buf offset rcb match match_remain mm t ut i ret t' ut'.
            mb_memmem (take match_remain (drop match buf)) pattern = Some i
            \<and> \<not> (0 \<le> e \<and> e < int (offset + (match + i) + length pattern))
            \<and> rcb t ut (offset + (match + i)) = (ret, t', ut')
            \<and> (ret = WARN \<or> lt_OK ret) \<longrightarrow>
            search_matches buf offset e pattern rcb match match_remain mm (t :: 't) (ut :: 'v)
              = Some (Done (if ret = WARN then OK else ret) t' ut')"
  proof (intro allI impI)
    fix buf offset match match_remain mm i ret
      and rcb :: "('t, 'v) FileSearchResultCallback" and t t' :: 't and ut ut' :: 'v
    assume "mb_memmem (take match_remain (drop match buf)) pattern = Some i
            \<and> \<not> (0 \<le> e \<and> e < int (offset + (match + i) + length pattern))
            \<and> rcb t ut (offset + (match + i)) = (ret, t', ut')
            \<and> (ret = WARN \<or> lt_OK ret)"
    then show "search_matches buf offset e pattern rcb match match_remain mm t ut
              = Some (Done (if ret = WARN then OK else ret) t' ut')"
      by (subst search_matches.simps) auto
  qed
  have 3: "\<exists>m' w'.
            file_search MemFile malloc m start e bsize pattern max_matches (traced cbm) (w, [])
              = Some (if f j = WARN then OK else f j, m',
                      (w', map (\<lambda>x. (x, OK)) pre @ [(j, f j)]))"
    if h: "search_ready m malloc start e bsize pattern \<and> answers cbm f \<and> max_matches \<noteq> 0
        \<and> total_matches (content m) pattern start e = pre @ j # post
        \<and> (\<forall>x\<in>set pre. f x = OK) \<and> lt_OK (f j)
        \<and> (max_matches < 0 \<or> length pre < nat max_matches)"
  proof -
    from h have h1: "search_ready m malloc start e bsize pattern" and h2: "answers cbm f"
      and h3: "max_matches \<noteq> 0"
      and tm: "total_matches (content m) pattern start e = pre @ j # post"
      and pre: "\<forall>x\<in>set pre. f x = OK" and fj: "lt_OK (f j)"
      and bud: "max_matches < 0 \<or> length pre < nat max_matches" by simp_all
    have r: "ref_run f max_matches (pre @ j # post) []
               = (if f j = WARN then OK else f j, [] @ map (\<lambda>x. (x, OK)) pre @ [(j, f j)])"
      by (rule ref_run_stop[OF pre fj bud])
    from file_search_ready[OF h1 h2 h3, of w] obtain m' w' where
      "file_search MemFile malloc m start e bsize pattern max_matches (traced cbm) (w, [])
         = Some (if f j = WARN then OK else f j, m',
                 (w', map (\<lambda>x. (x, OK)) pre @ [(j, f j)]))"
      unfolding tm r by auto
    then show ?thesis by (intro exI[of _ m'] exI[of _ w'])
  qed
  show ?thesis
    apply (intro conjI)
      apply (intro impI allI)
      apply (erule (1) 1)
     apply (rule 2)
    apply (rule impI, erule 3)
    done
qed

theorem search_callback_stops_witness:
  "file_search MemFile (\<lambda>n. True) (demo_file [1, 2, 1, 2, 1, 2, 1, 2, 1, 2] []) (-1) (-1) 0
      [1, 2, 1, 2] (-1) (traced (answer_cb (\<lambda>off. WARN))) (0, [])
     = Some (OK, (demo_file [1, 2, 1, 2, 1, 2, 1, 2, 1, 2] [])\<lparr>pos := 10\<rparr>, (1, [(0, WARN)]))
   \<and> file_search MemFile (\<lambda>n. True) (demo_file [1, 2, 1, 2, 1, 2, 1, 2, 1, 2] []) (-1) (-1) 0
      [1, 2, 1, 2] (-1) (traced (answer_cb (\<lambda>off. if off = 0 then OK else FAILED))) (0, [])
     = Some (FAILED, (demo_file [1, 2, 1, 2, 1, 2, 1, 2, 1, 2] [])\<lparr>pos := 10\<rparr>,
         (2, [(0, OK), (4, FAILED)]))
   \<and> Suc 0 = length [(0 :: nat, WARN)]
   \<and> Suc 1 = length [(0 :: nat, OK), (4, FAILED)]
   \<and> total_matches [1, 2, 1, 2, 1, 2, 1, 2, 1, 2] [1, 2, 1, 2] (-1) (-1) = [0, 4]
   \<and> (\<exists>m' w'.
        file_search MemFile (\<lambda>n. True) (demo_file [1, 2, 1, 2, 1, 2, 1, 2, 1, 2] [AtMost 2])
            (-1) (-1) 5 [1, 2, 1, 2] (-1) (traced (answer_cb (\<lambda>off. WARN))) (0, [])
          = Some (OK, m', (w', [(0, WARN)])))
   \<and> (\<exists>m' w'.
        file_search MemFile (\<lambda>n. True) (demo_file [1, 2, 1, 2, 1, 2, 1, 2, 1, 2] [AtMost 2])
            (-1) (-1) 5 [1, 2, 1, 2] (-1)
            (traced (answer_cb (\<lambda>off. if off = 0 then OK else FAILED))) (0, [])
          = Some (FAILED, m', (w', [(0, OK), (4, FAILED)])))"
proof -
  let ?D = "demo_file [1, 2, 1, 2, 1, 2, 1, 2, 1, 2] []"
  let ?E = "demo_file [1, 2, 1, 2, 1, 2, 1, 2, 1, 2] [AtMost 2]"
  have run1: "file_search MemFile (\<lambda>n. True) ?D
      (-1) (-1) 0 [1, 2, 1, 2] (-1) (traced (answer_cb (\<lambda>off. WARN))) (0, [])
     = Some (OK, ?D\<lparr>pos := 10\<rparr>, (1, [(0, WARN)]))"
    by (simp add: search_eval mem_eval)
  have run2: "file_search MemFile (\<lambda>n. True) ?D
      (-1) (-1) 0 [1, 2, 1, 2] (-1)
      (traced (answer_cb (\<lambda>off. if off = 0 then OK else FAILED))) (0, [])
     = Some (FAILED, ?D\<lparr>pos := 10\<rparr>, (2, [(0, OK), (4, FAILED)]))"
    by (simp add: search_eval mem_eval)
  have 1: "Suc 0 = length [(0 :: nat, WARN)]"
    using search_callback_stops[THEN conjunct1, THEN mp, OF run1, rule_format, of 0] by simp
  have 2: "Suc 1 = length [(0 :: nat, OK), (4, FAILED)]"
    using search_callback_stops[THEN conjunct1, THEN mp, OF run2, rule_format, of 1] by simp
  have tm: "total_matches [1, 2, 1, 2, 1, 2, 1, 2, 1, 2] [1, 2, 1, 2] (-1) (-1) = [0, 4]"
    by (simp add: total_matches_def searched_def ref_matches.simps)
  have cE: "content ?E = [1, 2, 1, 2, 1, 2, 1, 2, 1, 2]" by (simp add: demo_file_def)
  have rdy: "search_ready ?E (\<lambda>n. True) (-1) (-1) 5 [1, 2, 1, 2]"
    by (simp add: search_ready_def search_args_ok_def skips_to_def SIZE_MAX_def mem_eval)
  have hw: "search_ready ?E (\<lambda>n. True) (-1) (-1) 5 [1, 2, 1, 2]
        \<and> answers (answer_cb (\<lambda>off. WARN) :: (mem_file, nat) FileSearchResultCallback)
            (\<lambda>off. WARN)
        \<and> (-1 :: int) \<noteq> 0
        \<and> total_matches (content ?E) [1, 2, 1, 2] (-1) (-1) = [] @ 0 # [4]
        \<and> (\<forall>x\<in>set ([] :: nat list). (\<lambda>off. WARN) x = OK) \<and> lt_OK ((\<lambda>off. WARN) (0 :: nat))
        \<and> ((-1 :: int) < 0 \<or> length ([] :: nat list) < nat (-1))"
    using rdy unfolding cE tm by (simp add: answers_def answer_cb_def)
  have 3: "\<exists>m' w'.
        file_search MemFile (\<lambda>n. True) ?E
            (-1) (-1) 5 [1, 2, 1, 2] (-1) (traced (answer_cb (\<lambda>off. WARN))) (0, [])
          = Some (OK, m', (w', [(0, WARN)]))"
    using search_callback_stops[THEN conjunct2, THEN conjunct2, THEN mp, OF hw, of 0] by simp
  have hf: "search_ready ?E (\<lambda>n. True) (-1) (-1) 5 [1, 2, 1, 2]
        \<and> answers (answer_cb (\<lambda>off. if off = 0 then OK else FAILED)
                     :: (mem_file, nat) FileSearchResultCallback)
            (\<lambda>off. if off = 0 then OK else FAILED)
        \<and> (-1 :: int) \<noteq> 0
        \<and> total_matches (content ?E) [1, 2, 1, 2] (-1) (-1) = [0] @ 4 # []
        \<and> (\<forall>x\<in>set [0 :: nat]. (\<lambda>off. if off = 0 then OK else FAILED) x = OK)
        \<and> lt_OK ((\<lambda>off. if off = 0 then OK else FAILED) (4 :: nat))
        \<and> ((-1 :: int) < 0 \<or> length [0 :: nat] < nat (-1))"
    using rdy unfolding cE tm by (simp add: answers_def answer_cb_def)
  have 4: "\<exists>m' w'.
        file_search MemFile (\<lambda>n. True) ?E
            (-1) (-1) 5 [1, 2, 1, 2] (-1)
            (traced (answer_cb (\<lambda>off. if off = 0 then OK else FAILED))) (0, [])
          = Some (FAILED, m', (w', [(0, OK), (4, FAILED)]))"
    using search_callback_stops[THEN conjunct2, THEN conjunct2, THEN mp, OF hf, of 0] by simp
  from run1 run2 1 2 tm 3 4 show ?thesis by (intro conjI)
qed

text \<open>
  Claim C6, as amended. With a budget \<open>max_matches = k > 0\<close>, a \<open>file_search\<close> that returns
  has called the callback at most \<open>k\<close> times, on any handle and with any callback. On the
  scripted handle, seekable or not, with arguments that pass the checks, reads that do not
  fail, a handle that can be brought to the start offset and a callback that always returns
  \<open>OK\<close> and leaves the handle as it is, \<open>file_search\<close> returns \<open>OK\<close> and has called the
  callback on exactly the first \<open>k\<close> non-overlapping matches of the searched range, on all of
  them when \<open>k\<close> is negative or there are fewer: \<open>min(k, total_matches)\<close> calls for \<open>k > 0\<close>.
  On a handle that cannot seek and whose file ends before the start offset, \<open>file_search\<close>
  fails with \<open>FATAL\<close> without a call, and the range holds no match. With \<open>max_matches = 0\<close>
  and a range that is not rejected, \<open>file_search\<close> returns \<open>OK\<close> at once, with the handle and
  the user data as they were and the callback not called. With a range that is rejected,
  \<open>file_search\<close> fails with \<open>FAILED\<close> and invalid-argument whatever the budget, zero
  included. Nothing is said of a handle that cannot seek and whose discard reads more than
  the start offset: that is the defect of claims C2 and C8.
\<close>

theorem search_match_budget:
  "(file_search F malloc s start e bsize pattern k (traced cb) (u, []) = Some (st, s', (u', tr))
      \<and> 0 < k \<longrightarrow> length tr \<le> nat k)
   \<and> (search_ready m malloc start e bsize pattern \<and> ok_cb cbm \<and> k \<noteq> 0 \<longrightarrow>
        (\<exists>m' w' trm. file_search MemFile malloc m start e bsize pattern k (traced cbm) (w, [])
            = Some (OK, m', (w', trm))
          \<and> map fst trm = take_budget k (total_matches (content m) pattern start e)
          \<and> (0 < k \<longrightarrow>
               length trm = min (nat k) (length (total_matches (content m) pattern start e)))))
   \<and> (search_args_ok malloc start e bsize pattern
      \<and> (\<forall>x\<in>set (sched m). no_fail x) \<and> length (content m) \<le> UINT64_MAX
      \<and> \<not> seekable m \<and> pos m = 0 \<and> int (length (content m)) < start
      \<and> pattern \<noteq> [] \<and> k \<noteq> 0 \<longrightarrow>
        (\<exists>m'. file_search MemFile malloc m start e bsize pattern k (traced cbm) (w, [])
            = Some (FATAL, m', (w, [])))
        \<and> total_matches (content m) pattern start e = [])
   \<and> (\<not> (0 \<le> start \<and> 0 \<le> e \<and> e < start) \<longrightarrow>
        file_search F malloc s start e bsize pattern 0 cb0 u0 = Some (OK, s, u0))
   \<and> (0 \<le> start \<and> 0 \<le> e \<and> e < start \<longrightarrow>
        file_search F malloc s start e bsize pattern k cb0 u0
          = Some (FAILED, File_set_error F s INVALID_ARGUMENT, u0))"
proof -
  have a: "file_search F malloc s start e bsize pattern k (traced cb) (u, []) = Some (st, s', (u', tr))
      \<and> 0 < k \<longrightarrow> length tr \<le> nat k"
    by (auto dest: file_search_budget)
  have b: "\<exists>m' w' trm. file_search MemFile malloc m start e bsize pattern k (traced cbm) (w, [])
            = Some (OK, m', (w', trm))
          \<and> map fst trm = take_budget k (total_matches (content m) pattern start e)
          \<and> (0 < k \<longrightarrow>
               length trm = min (nat k) (length (total_matches (content m) pattern start e)))"
    if h: "search_ready m malloc start e bsize pattern \<and> ok_cb cbm \<and> k \<noteq> 0"
  proof -
    from h have h1: "search_ready m malloc start e bsize pattern" and h2: "ok_cb cbm"
      and h3: "k \<noteq> 0" by simp_all
    from file_search_all_ok[OF h1 h2 h3, of w]
    obtain m' w' trm where
      run: "file_search MemFile malloc m start e bsize pattern k (traced cbm) (w, [])
            = Some (OK, m', (w', trm))"
      and tr: "trm = map (\<lambda>j. (j, OK)) (take_budget k (total_matches (content m) pattern start e))"
      by blast
    have mf: "map fst trm = take_budget k (total_matches (content m) pattern start e)"
      unfolding tr by (simp add: comp_def)
    have "length trm = min (nat k) (length (total_matches (content m) pattern start e))"
      if "0 < k"
      using length_take_budget[OF that, of "total_matches (content m) pattern start e"]
        arg_cong[OF mf, of length] by simp
    then show ?thesis using run mf by blast
  qed
  have c: "(\<exists>m'. file_search MemFile malloc m start e bsize pattern k (traced cbm) (w, [])
            = Some (FATAL, m', (w, [])))
        \<and> total_matches (content m) pattern start e = []"
    if h: "search_args_ok malloc start e bsize pattern
      \<and> (\<forall>x\<in>set (sched m). no_fail x) \<and> length (content m) \<le> UINT64_MAX
      \<and> \<not> seekable m \<and> pos m = 0 \<and> int (length (content m)) < start
      \<and> pattern \<noteq> [] \<and> k \<noteq> 0"
  proof -
    from h have r: "search_args_ok malloc start e bsize pattern"
      and nf: "\<forall>x\<in>set (sched m). no_fail x" and lim: "length (content m) \<le> UINT64_MAX"
      and ns: "\<not> seekable m" and p0: "pos m = 0" and sh: "int (length (content m)) < start"
      and pne: "pattern \<noteq> []" and k0: "k \<noteq> 0" by simp_all
    from r have range: "\<not> (0 \<le> start \<and> 0 \<le> e \<and> e < start)"
      and bs: "bsize = 0 \<or> length pattern \<le> bsize" and pmax: "length pattern \<le> SIZE_MAX"
      and mal: "malloc (if bsize \<noteq> 0 then bsize
                      else if length pattern > SIZE_MAX div 2 then SIZE_MAX
                      else max DEFAULT_BUFFER_SIZE (length pattern * 2))"
      unfolding search_args_ok_def by simp_all
    show ?thesis
      by (rule file_search_short[where malloc = malloc and bsize = bsize,
            OF nf ns p0 k0 pne range bs pmax mal lim sh])
  qed
  have d: "\<not> (0 \<le> start \<and> 0 \<le> e \<and> e < start) \<longrightarrow>
        file_search F malloc s start e bsize pattern 0 cb0 u0 = Some (OK, s, u0)"
    by (simp add: file_search_def)
  have e: "0 \<le> start \<and> 0 \<le> e \<and> e < start \<longrightarrow>
        file_search F malloc s start e bsize pattern k cb0 u0
          = Some (FAILED, File_set_error F s INVALID_ARGUMENT, u0)"
    by (simp add: file_search_def)
  show ?thesis
    apply (intro conjI)
        apply (rule a)
       apply (rule impI, erule b)
      apply (rule impI, erule c)
     apply (rule d)
    apply (rule e)
    done
qed

theorem search_match_budget_witness:
  "file_search MemFile (\<lambda>n. True)
      ((demo_file [0, 0, 0, 0, 0, 1, 2, 1, 2, 0] [])\<lparr>seekable := False\<rparr>) 5 (-1) 4
      [1, 2] 1 (traced record_cb) ([], [])
     = Some (OK, (demo_file [0, 0, 0, 0, 0, 1, 2, 1, 2, 0] [])\<lparr>pos := 9, seekable := False\<rparr>,
         ([5], [(5, OK)]))
   \<and> length [(5 :: nat, OK)] \<le> nat 1
   \<and> total_matches [0, 0, 0, 0, 0, 1, 2, 1, 2, 0] [1, 2] 5 (-1) = [5, 7]
   \<and> (\<exists>m' w' trm.
        file_search MemFile (\<lambda>n. True)
            ((demo_file [0, 0, 0, 0, 0, 1, 2, 1, 2, 0] [])\<lparr>seekable := False\<rparr>) 5 (-1) 4
            [1, 2] 1 (traced record_cb) ([], [])
          = Some (OK, m', (w', trm))
        \<and> map fst trm = [5] \<and> length trm = min (nat 1) (length [5, 7 :: nat]))
   \<and> file_search MemFile (\<lambda>n. True)
        ((demo_file [0, 0, 0, 0, 0, 1, 2, 1, 2, 0] [])\<lparr>seekable := False\<rparr>) 5 (-1) 4
        [1, 2] 0 (traced record_cb) ([], [])
     = Some (OK, (demo_file [0, 0, 0, 0, 0, 1, 2, 1, 2, 0] [])\<lparr>seekable := False\<rparr>, ([], []))
   \<and> (\<exists>m'. file_search MemFile (\<lambda>n. True) ((demo_file [1, 2] [])\<lparr>seekable := False\<rparr>) 5 (-1) 4
               [1, 2] 1 (traced record_cb) ([], [])
             = Some (FATAL, m', ([], [])))
   \<and> total_matches [1, 2] [1, 2] 5 (-1) = []
   \<and> file_search MemFile (\<lambda>n. True)
        ((demo_file [0, 0, 0, 0, 0, 1, 2, 1, 2, 0] [])\<lparr>seekable := False\<rparr>) 5 3 4
        [1, 2] 1 (traced record_cb) ([], [])
     = Some (FAILED,
         (demo_file [0, 0, 0, 0, 0, 1, 2, 1, 2, 0] [])
           \<lparr>seekable := False, last_error := Some INVALID_ARGUMENT\<rparr>, ([], []))"
proof -
  let ?N = "(demo_file [0, 0, 0, 0, 0, 1, 2, 1, 2, 0] [])\<lparr>seekable := False\<rparr>"
  let ?M = "(demo_file [1, 2] [])\<lparr>seekable := False\<rparr>"
  note T = search_match_budget
    [where F = MemFile and malloc = "\<lambda>n. True" and s = ?N
       and start = 5 and e = "-1" and bsize = 4 and pattern = "[1, 2]" and k = 1
       and cb = record_cb and u = "[]" and m = ?N and cbm = record_cb and w = "[]"
       and ?cb0.0 = "traced record_cb" and ?u0.0 = "([], [])"]
  note T2 = search_match_budget
    [where malloc = "\<lambda>n. True" and start = 5 and e = "-1" and bsize = 4
       and pattern = "[1, 2]" and k = 1 and m = ?M and cbm = record_cb and w = "[]"]
  note T3 = search_match_budget
    [where F = MemFile and malloc = "\<lambda>n. True" and s = ?N
       and start = 5 and e = 3 and bsize = 4 and pattern = "[1, 2]" and k = 1
       and ?cb0.0 = "traced record_cb" and ?u0.0 = "([], [])"]
  have run: "file_search MemFile (\<lambda>n. True) ?N 5 (-1) 4 [1, 2] 1 (traced record_cb) ([], [])
     = Some (OK, (demo_file [0, 0, 0, 0, 0, 1, 2, 1, 2, 0] [])\<lparr>pos := 9, seekable := False\<rparr>,
         ([5], [(5, OK)]))"
    by (simp add: search_eval mem_eval)
  have a: "length [(5 :: nat, OK)] \<le> nat 1"
    using T[THEN conjunct1, THEN mp, OF conjI[OF run]] by simp
  have tm: "total_matches [0, 0, 0, 0, 0, 1, 2, 1, 2, 0] [1, 2] 5 (-1) = [5, 7]"
    by (simp add: total_matches_def searched_def ref_matches.simps)
  have rdy: "search_ready ?N (\<lambda>n. True) 5 (-1) 4 [1, 2]
      \<and> ok_cb (record_cb :: (mem_file, nat list) FileSearchResultCallback) \<and> (1 :: int) \<noteq> 0"
    by (simp add: search_ready_def search_args_ok_def skips_to_def ok_cb_def record_cb_def
        file_read_discard_def read_discard_loop.simps SIZE_MAX_def mem_eval)
  have b: "\<exists>m' w' trm.
        file_search MemFile (\<lambda>n. True) ?N 5 (-1) 4 [1, 2] 1 (traced record_cb) ([], [])
          = Some (OK, m', (w', trm))
        \<and> map fst trm = [5] \<and> length trm = min (nat 1) (length [5, 7 :: nat])"
  proof -
    have cN: "content ?N = [0, 0, 0, 0, 0, 1, 2, 1, 2, 0]" by (simp add: demo_file_def)
    show ?thesis
      using T[THEN conjunct2, THEN conjunct1, THEN mp, OF rdy] unfolding cN tm
      by (simp add: take_budget_def)
  qed
  have d: "file_search MemFile (\<lambda>n. True) ?N 5 (-1) 4 [1, 2] 0 (traced record_cb) ([], [])
     = Some (OK, ?N, ([], []))"
    using T[THEN conjunct2, THEN conjunct2, THEN conjunct2, THEN conjunct1] by simp
  have short: "search_args_ok (\<lambda>n. True) 5 (-1) 4 [1, 2 :: byte]
      \<and> (\<forall>x\<in>set (sched ?M). no_fail x) \<and> length (content ?M) \<le> UINT64_MAX
      \<and> \<not> seekable ?M \<and> pos ?M = 0 \<and> int (length (content ?M)) < 5
      \<and> [1, 2 :: byte] \<noteq> [] \<and> (1 :: int) \<noteq> 0"
    by (simp add: search_args_ok_def demo_file_def UINT64_MAX_def SIZE_MAX_def)
  note c0 = T2[THEN conjunct2, THEN conjunct2, THEN conjunct1, THEN mp, OF short]
  have c1: "\<exists>m'. file_search MemFile (\<lambda>n. True) ?M 5 (-1) 4 [1, 2] 1 (traced record_cb) ([], [])
             = Some (FATAL, m', ([], []))"
    using c0[THEN conjunct1] .
  have cM: "content ?M = [1, 2]" by (simp add: demo_file_def)
  have c2: "total_matches [1, 2] [1, 2] 5 (-1) = []"
    using c0[THEN conjunct2] unfolding cM .
  have e: "file_search MemFile (\<lambda>n. True) ?N 5 3 4 [1, 2] 1 (traced record_cb) ([], [])
     = Some (FAILED,
         (demo_file [0, 0, 0, 0, 0, 1, 2, 1, 2, 0] [])
           \<lparr>seekable := False, last_error := Some INVALID_ARGUMENT\<rparr>, ([], []))"
    using T3[THEN conjunct2, THEN conjunct2, THEN conjunct2, THEN conjunct2]
    by (simp add: mem_set_error_def)
  from run a tm b d c1 c2 e show ?thesis by (intro conjI)
qed

text \<open>
  Claim C6 as stated fails where the search is ended by design before its matches are
  reported. The check of \<open>start\<close> and \<open>end\<close> comes before the test of \<open>max_matches\<close>, so with
  \<open>start = 5\<close>, \<open>end = 3\<close> and \<open>max_matches = 0\<close> the search fails with invalid-argument
  instead of succeeding at once. A read that fails, a buffer size below the pattern size and
  an allocation that fails each end the search with \<open>FAILED\<close> and without a call, although
  the range holds two matches and the budget is 1. The second run below is the defect of
  claims C2 and C8, which the amended claim leaves out: on a handle that cannot seek and
  whose first read is short, the discard of 5 bytes reads 7, and the search fails with
  \<open>FATAL\<close> without a call.
\<close>

theorem search_match_budget_counterexample:
  "file_search MemFile (\<lambda>n. True) (demo_file [1, 2, 1, 2] []) 5 3 0 [1, 2] 0 record_cb []
     = Some (FAILED, (demo_file [1, 2, 1, 2] [])\<lparr>last_error := Some INVALID_ARGUMENT\<rparr>, [])
   \<and> file_search MemFile (\<lambda>n. True)
        ((demo_file [0, 0, 0, 0, 0, 1, 2, 1, 2, 0] [AtMost 1])\<lparr>seekable := False\<rparr>) 5 (-1) 4
        [1, 2] 1 (traced record_cb) ([], [])
     = Some (FATAL,
         (demo_file [0, 0, 0, 0, 0, 1, 2, 1, 2, 0] [])
           \<lparr>pos := 7, seekable := False, last_error := Some INVALID_ARGUMENT\<rparr>, ([], []))
   \<and> total_matches [0, 0, 0, 0, 0, 1, 2, 1, 2, 0] [1, 2] 5 (-1) = [5, 7]
   \<and> length ([] :: (nat \<times> FileStatus) list) \<noteq> min (nat 1) (length [5, 7 :: nat])
   \<and> file_search MemFile (\<lambda>n. True) (demo_file [1, 2, 1, 2] [Fail FAILED]) (-1) (-1) 4
        [1, 2] 1 (traced record_cb) ([], [])
     = Some (FAILED, demo_file [1, 2, 1, 2] [], ([], []))
   \<and> total_matches [1, 2, 1, 2] [1, 2] (-1) (-1) = [0, 2]
   \<and> file_search MemFile (\<lambda>n. True) (demo_file [1, 2, 1, 2] []) (-1) (-1) 1
        [1, 2] 1 (traced record_cb) ([], [])
     = Some (FAILED, (demo_file [1, 2, 1, 2] [])\<lparr>last_error := Some INVALID_ARGUMENT\<rparr>,
         ([], []))
   \<and> file_search MemFile (\<lambda>n. False) (demo_file [1, 2, 1, 2] []) (-1) (-1) 4
        [1, 2] 1 (traced record_cb) ([], [])
     = Some (FAILED, (demo_file [1, 2, 1, 2] [])\<lparr>last_error := Some ERRNO\<rparr>, ([], []))"
proof -
  have 1: "file_search MemFile (\<lambda>n. True) (demo_file [1, 2, 1, 2] []) 5 3 0 [1, 2] 0 record_cb []
     = Some (FAILED, (demo_file [1, 2, 1, 2] [])\<lparr>last_error := Some INVALID_ARGUMENT\<rparr>, [])"
    by (simp add: file_search_def mem_set_error_def demo_file_def)
  have 2: "file_search MemFile (\<lambda>n. True)
        ((demo_file [0, 0, 0, 0, 0, 1, 2, 1, 2, 0] [AtMost 1])\<lparr>seekable := False\<rparr>) 5 (-1) 4
        [1, 2] 1 (traced record_cb) ([], [])
     = Some (FATAL,
         (demo_file [0, 0, 0, 0, 0, 1, 2, 1, 2, 0] [])
           \<lparr>pos := 7, seekable := False, last_error := Some INVALID_ARGUMENT\<rparr>, ([], []))"
    by (simp add: search_eval mem_eval)
  have 3: "total_matches [0, 0, 0, 0, 0, 1, 2, 1, 2, 0] [1, 2] 5 (-1) = [5, 7]"
    by (simp add: total_matches_def searched_def ref_matches.simps)
  have 4: "length ([] :: (nat \<times> FileStatus) list) \<noteq> min (nat 1) (length [5, 7 :: nat])"
    by simp
  have 5: "file_search MemFile (\<lambda>n. True) (demo_file [1, 2, 1, 2] [Fail FAILED]) (-1) (-1) 4
        [1, 2] 1 (traced record_cb) ([], [])
     = Some (FAILED, demo_file [1, 2, 1, 2] [], ([], []))"
    by (simp add: search_eval mem_eval)
  have 6: "total_matches [1, 2, 1, 2] [1, 2] (-1) (-1) = [0, 2]"
    by (simp add: total_matches_def searched_def ref_matches.simps)
  have 7: "file_search MemFile (\<lambda>n. True) (demo_file [1, 2, 1, 2] []) (-1) (-1) 1
        [1, 2] 1 (traced record_cb) ([], [])
     = Some (FAILED, (demo_file [1, 2, 1, 2] [])\<lparr>last_error := Some INVALID_ARGUMENT\<rparr>,
         ([], []))"
    by (simp add: file_search_def mem_set_error_def demo_file_def)
  have 8: "file_search MemFile (\<lambda>n. False) (demo_file [1, 2, 1, 2] []) (-1) (-1) 4
        [1, 2] 1 (traced record_cb) ([], [])
     = Some (FAILED, (demo_file [1, 2, 1, 2] [])\<lparr>last_error := Some ERRNO\<rparr>, ([], []))"
    by (simp add: file_search_def mem_set_error_def demo_file_def)
  from 1 2 3 4 5 6 7 8 show ?thesis by (intro conjI)
qed


end
